theory Spec2Isabelle
  imports Main
begin

section \<open>Values of the Go program\<close>

text \<open>
  A value of the interface type \<^verbatim>\<open>sync.Locker\<close> is either \<^verbatim>\<open>nil\<close> or a
  reference to a Locker instance. Instances are compared by identity, so a reference is
  the number of the instance. Row keys are the hashable Go values under \<^verbatim>\<open>==\<close>
  (the comment on \<^verbatim>\<open>Row\<close>: "It must be hashable") that are equal to themselves
  (so not a floating-point NaN); they are the type variable \<open>'k\<close> with HOL equality.
\<close>

datatype iface = Nil | Ref nat

text \<open>
  A panic raised by the facade itself (the failed type assertion that ends
  \<^verbatim>\<open>getLocker\<close>) is kept apart from a fault of the plugged-in Locker.
\<close>

datatype fault = TypeAssertion | LockerFault

section \<open>The library objects the facade owns\<close>

text \<open>
  \<^verbatim>\<open>sync.Pool\<close>: the idle instances, the \<^verbatim>\<open>New\<close> function and the number of
  times \<^verbatim>\<open>New\<close> has been called. The factory \<^verbatim>\<open>f\<close> of \<^verbatim>\<open>NewRowLock\<close> is an
  arbitrary Go function; what the program sees of it is the sequence of the values its
  successive calls return, so \<open>New p n\<close> is the value returned by call number \<open>n\<close>.
\<close>

record Pool =
  New :: "nat \<Rightarrow> iface"
  calls :: nat
  idle :: "iface list"

text \<open>
  What \<^verbatim>\<open>sync.Pool\<close> leaves open is an argument: \<open>pick\<close> says which idle
  instance \<^verbatim>\<open>Get\<close> takes (\<open>None\<close>, or an index out of range: it treats the pool as
  empty and calls \<^verbatim>\<open>New\<close>), \<open>keep\<close> says whether \<^verbatim>\<open>Put\<close> keeps the instance
  or drops it.
\<close>

record choice =
  pick :: "nat option"
  keep :: bool

text \<open>
  Modelled from the spec: \<^verbatim>\<open>sync.Pool.Get\<close> belongs to Go's standard library and
  is not under src/. It is the spec's \<^verbatim>\<open>Acquire\<close>: it returns an idle instance,
  removed from the pool, if one is available, and otherwise constructs one with the
  configured factory. Which idle instance it takes is not specified, and it may treat
  the pool as empty (released instances may have been dropped).
\<close>

definition Get :: "Pool \<Rightarrow> nat option \<Rightarrow> iface \<times> Pool" where
  "Get p i =
     (case i of
        None \<Rightarrow> (New p (calls p), p\<lparr>calls := Suc (calls p)\<rparr>)
      | Some n \<Rightarrow>
          if n < length (idle p)
          then (idle p ! n, p\<lparr>idle := take n (idle p) @ drop (Suc n) (idle p)\<rparr>)
          else (New p (calls p), p\<lparr>calls := Suc (calls p)\<rparr>))"

text \<open>
  Modelled from the spec: \<^verbatim>\<open>sync.Pool.Put\<close> belongs to Go's standard library and
  is not under src/. It is the spec's \<^verbatim>\<open>Release\<close>: the instance goes back to the
  pool, or is silently dropped. A \<^verbatim>\<open>nil\<close> is never kept.
\<close>

definition Put :: "Pool \<Rightarrow> bool \<Rightarrow> iface \<Rightarrow> Pool" where
  "Put p k x = (if x = Nil \<or> \<not> k then p else p\<lparr>idle := x # idle p\<rparr>)"

text \<open>
  Modelled from the spec: \<^verbatim>\<open>sync.Map.LoadOrStore\<close> belongs to Go's standard
  library and is not under src/. It is the spec's \<^verbatim>\<open>GetOrInsert\<close>, one atomic
  step: an unbound key is bound to the given value, which is returned; a bound key
  keeps its value, which is returned. The flag \<open>loaded\<close> is true when the value was
  already there, so it is the negation of the spec's \<^verbatim>\<open>didInsert\<close>.
\<close>

definition LoadOrStore ::
  "('k \<rightharpoonup> iface) \<Rightarrow> 'k \<Rightarrow> iface \<Rightarrow> iface \<times> bool \<times> ('k \<rightharpoonup> iface)" where
  "LoadOrStore m key val =
     (case m key of
        Some actual \<Rightarrow> (actual, True, m)
      | None \<Rightarrow> (val, False, m(key \<mapsto> val)))"

section \<open>The facade\<close>

record 'k RowLock =
  locks :: "'k \<rightharpoonup> iface"
  lockerPool :: Pool

definition NewRowLock :: "(nat \<Rightarrow> iface) \<Rightarrow> 'k RowLock" where
  "NewRowLock f = \<lparr>locks = Map.empty, lockerPool = \<lparr>New = f, calls = 0, idle = []\<rparr>\<rparr>"

text \<open>
  \<^verbatim>\<open>new(sync.Mutex)\<close> is a new instance at every call: call number \<open>n\<close> returns
  instance \<open>n\<close>.
\<close>

definition MutexNewLocker :: "nat \<Rightarrow> iface" where
  "MutexNewLocker n = Ref n"

text \<open>The type assertion \<^verbatim>\<open>locker.(sync.Locker)\<close> panics on \<^verbatim>\<open>nil\<close>.\<close>

definition assertLocker :: "iface \<Rightarrow> fault + nat" where
  "assertLocker v = (case v of Nil \<Rightarrow> Inl TypeAssertion | Ref l \<Rightarrow> Inr l)"

definition getLocker :: "'k RowLock \<Rightarrow> choice \<Rightarrow> 'k \<Rightarrow> (fault + nat) \<times> 'k RowLock" where
  "getLocker rl ch row =
     (let (newLocker, pool1) = Get (lockerPool rl) (pick ch);
          (locker, loaded, locks1) = LoadOrStore (locks rl) row newLocker;
          pool2 = (if loaded then Put pool1 (keep ch) newLocker else pool1)
      in (assertLocker locker, \<lparr>locks = locks1, lockerPool = pool2\<rparr>))"

section \<open>Lockers, Lock and Unlock\<close>

text \<open>
  The Locker is plugged in: its methods are arguments. A method called on an instance in
  state \<open>m\<close> returns with the instance in a new state, blocks (the call does not
  return while the instance stays as it is), or faults. The states of all instances
  are the heap \<open>nat \<Rightarrow> 'm\<close>.
\<close>

datatype 'm effect = Done 'm | Blocks | Faults

record 'm Locker =
  locker_Lock :: "'m \<Rightarrow> 'm effect"
  locker_Unlock :: "'m \<Rightarrow> 'm effect"

text \<open>
  \<^verbatim>\<open>sync.Mutex\<close>, the Locker of \<^verbatim>\<open>MutexNewLocker\<close>: the state is "locked";
  the zero value is unlocked; unlocking an unlocked mutex is a fatal error.
\<close>

definition Mutex :: "bool Locker" where
  "Mutex = \<lparr>locker_Lock = (\<lambda>locked. if locked then Blocks else Done True),
            locker_Unlock = (\<lambda>locked. if locked then Done False else Faults)\<rparr>"

datatype outcome = Completed | Blocked | Panicked fault

record ('k, 'm) world =
  rowlock :: "'k RowLock"
  heap :: "nat \<Rightarrow> 'm"

definition invoke :: "('m \<Rightarrow> 'm effect) \<Rightarrow> (nat \<Rightarrow> 'm) \<Rightarrow> nat \<Rightarrow> outcome \<times> (nat \<Rightarrow> 'm)" where
  "invoke meth h l =
     (case meth (h l) of
        Done m \<Rightarrow> (Completed, h(l := m))
      | Blocks \<Rightarrow> (Blocked, h)
      | Faults \<Rightarrow> (Panicked LockerFault, h))"

definition Lock :: "'m Locker \<Rightarrow> ('k, 'm) world \<Rightarrow> choice \<Rightarrow> 'k \<Rightarrow> outcome \<times> ('k, 'm) world" where
  "Lock impl w ch row =
     (case getLocker (rowlock w) ch row of
        (Inl e, rl) \<Rightarrow> (Panicked e, \<lparr>rowlock = rl, heap = heap w\<rparr>)
      | (Inr l, rl) \<Rightarrow>
          (let (out, h) = invoke (locker_Lock impl) (heap w) l
           in (out, \<lparr>rowlock = rl, heap = h\<rparr>)))"

definition Unlock :: "'m Locker \<Rightarrow> ('k, 'm) world \<Rightarrow> choice \<Rightarrow> 'k \<Rightarrow> outcome \<times> ('k, 'm) world" where
  "Unlock impl w ch row =
     (case getLocker (rowlock w) ch row of
        (Inl e, rl) \<Rightarrow> (Panicked e, \<lparr>rowlock = rl, heap = heap w\<rparr>)
      | (Inr l, rl) \<Rightarrow>
          (let (out, h) = invoke (locker_Unlock impl) (heap w) l
           in (out, \<lparr>rowlock = rl, heap = h\<rparr>)))"

section \<open>Sequences of operations\<close>

datatype 'k call = LockCall 'k | UnlockCall 'k | GetLockerCall 'k

fun row_of :: "'k call \<Rightarrow> 'k" where
  "row_of (LockCall r) = r"
| "row_of (UnlockCall r) = r"
| "row_of (GetLockerCall r) = r"

fun exec :: "'m Locker \<Rightarrow> ('k, 'm) world \<Rightarrow> 'k call \<times> choice \<Rightarrow> outcome \<times> ('k, 'm) world" where
  "exec impl w (LockCall r, ch) = Lock impl w ch r"
| "exec impl w (UnlockCall r, ch) = Unlock impl w ch r"
| "exec impl w (GetLockerCall r, ch) =
     (case getLocker (rowlock w) ch r of
        (Inl e, rl) \<Rightarrow> (Panicked e, \<lparr>rowlock = rl, heap = heap w\<rparr>)
      | (Inr l, rl) \<Rightarrow> (Completed, \<lparr>rowlock = rl, heap = heap w\<rparr>))"

text \<open>
  A run executes the calls one after the other. A call that panics or blocks leaves the
  state it has reached (the binding its \<^verbatim>\<open>getLocker\<close> made stays), and the run goes
  on with the next call, as it does when another goroutine makes it.
\<close>

fun run :: "'m Locker \<Rightarrow> ('k, 'm) world \<Rightarrow> ('k call \<times> choice) list \<Rightarrow> ('k, 'm) world" where
  "run impl w [] = w"
| "run impl w (c # cs) = run impl (snd (exec impl w c)) cs"

text \<open>What the \<^verbatim>\<open>getLocker\<close> of each call of a run returns.\<close>

fun resolved :: "'m Locker \<Rightarrow> ('k, 'm) world \<Rightarrow> ('k call \<times> choice) list \<Rightarrow> (fault + nat) list" where
  "resolved impl w [] = []"
| "resolved impl w (c # cs) =
     fst (getLocker (rowlock w) (snd c) (row_of (fst c))) # resolved impl (snd (exec impl w c)) cs"

fun outcomes :: "'m Locker \<Rightarrow> ('k, 'm) world \<Rightarrow> ('k call \<times> choice) list \<Rightarrow> outcome list" where
  "outcomes impl w [] = []"
| "outcomes impl w (c # cs) = fst (exec impl w c) # outcomes impl (snd (exec impl w c)) cs"

section \<open>The spec's Resolve\<close>

text \<open>
  The spec's \<^verbatim>\<open>GetOrInsert(key, candidate) -> (bound, didInsert)\<close>: "atomically
  checks whether key is already bound; if not, binds candidate and returns (candidate,
  true); if already bound, returns (existing, false) and leaves candidate unbound".
\<close>

definition GetOrInsert ::
  "('k \<rightharpoonup> iface) \<Rightarrow> 'k \<Rightarrow> iface \<Rightarrow> iface \<times> bool \<times> ('k \<rightharpoonup> iface)" where
  "GetOrInsert t key candidate =
     (if key \<in> dom t then (the (t key), False, t)
      else (candidate, True, t(key \<mapsto> candidate)))"

text \<open>
  The spec's \<^verbatim>\<open>Resolve(row)\<close>, step by step: (1) acquire a candidate from the pool;
  (2) \<^verbatim>\<open>GetOrInsert(row, candidate)\<close>; (3) if it was inserted, the candidate is the
  row's Locker: return it; (4) otherwise release the candidate to the pool and return
  the bound Locker of step 2.
\<close>

definition Resolve :: "'k RowLock \<Rightarrow> choice \<Rightarrow> 'k \<Rightarrow> iface \<times> 'k RowLock" where
  "Resolve rl ch row =
     (let (candidate, p) = Get (lockerPool rl) (pick ch);
          (bound, didInsert, t) = GetOrInsert (locks rl) row candidate
      in if didInsert then (candidate, \<lparr>locks = t, lockerPool = p\<rparr>)
         else (bound, \<lparr>locks = t, lockerPool = Put p (keep ch) candidate\<rparr>))"

section \<open>A concrete RowLock\<close>

text \<open>
  \<^verbatim>\<open>NewRowLock(MutexNewLocker)\<close> with rows that are numbers: every mutex is the zero
  value, unlocked. Two behaviours of the pool: it never recycles (every \<^verbatim>\<open>Get\<close>
  calls the factory, every \<^verbatim>\<open>Put\<close> drops), or it recycles (\<^verbatim>\<open>Put\<close> keeps,
  \<^verbatim>\<open>Get\<close> takes the instance released last, if there is one).
\<close>

definition mutex_world :: "(nat, bool) world" where
  "mutex_world = \<lparr>rowlock = NewRowLock MutexNewLocker, heap = (\<lambda>l. False)\<rparr>"

definition never_recycles :: choice where
  "never_recycles = \<lparr>pick = None, keep = False\<rparr>"

definition recycles :: choice where
  "recycles = \<lparr>pick = Some 0, keep = True\<rparr>"

section \<open>Invariants of the table and the pool\<close>

text \<open>
  When the factory returns a different instance at every call: no two rows share a
  Locker, no idle instance is listed twice, no idle instance is bound, and every
  instance in the table or the pool came from a call of the factory already made.
\<close>

definition instances_apart :: "'k RowLock \<Rightarrow> bool" where
  "instances_apart rl \<longleftrightarrow>
     inj_on (locks rl) (dom (locks rl))
     \<and> distinct (idle (lockerPool rl))
     \<and> set (idle (lockerPool rl)) \<inter> ran (locks rl) = {}
     \<and> ran (locks rl) \<union> set (idle (lockerPool rl))
           \<subseteq> New (lockerPool rl) ` {..<calls (lockerPool rl)}"

text \<open>When the factory never returns \<^verbatim>\<open>nil\<close>: no \<^verbatim>\<open>nil\<close> is bound or idle.\<close>

definition no_nil :: "'k RowLock \<Rightarrow> bool" where
  "no_nil rl \<longleftrightarrow> Nil \<notin> ran (locks rl) \<and> Nil \<notin> set (idle (lockerPool rl))"

text \<open>
  The Locker method a call invokes on the instance it resolves; \<^verbatim>\<open>getLocker\<close>
  alone invokes none, and the instance stays as it is.
\<close>

fun method_of :: "'m Locker \<Rightarrow> 'k call \<Rightarrow> 'm \<Rightarrow> 'm effect" where
  "method_of impl (LockCall r) = locker_Lock impl"
| "method_of impl (UnlockCall r) = locker_Unlock impl"
| "method_of impl (GetLockerCall r) = Done"

text \<open>
  An instance that is bound to no row is in the state \<open>m0\<close> it was created in: only
  Lock and Unlock change an instance, and they change the one bound to their row.
\<close>

definition pristine :: "'m \<Rightarrow> ('k, 'm) world \<Rightarrow> bool" where
  "pristine m0 w \<longleftrightarrow> (\<forall>l. Ref l \<notin> ran (locks (rowlock w)) \<longrightarrow> heap w l = m0)"

text \<open>
  Two worlds that differ in which instances the pool handed out: the same rows are bound,
  and the Lockers bound to a row in the one and in the other are in the same state.
\<close>

definition alike :: "('k, 'm) world \<Rightarrow> ('k, 'm) world \<Rightarrow> bool" where
  "alike w w' \<longleftrightarrow>
     dom (locks (rowlock w)) = dom (locks (rowlock w'))
     \<and> (\<forall>k l l'. locks (rowlock w) k = Some (Ref l) \<and> locks (rowlock w') k = Some (Ref l')
           \<longrightarrow> heap w l = heap w' l')"

definition settled :: "'m \<Rightarrow> ('k, 'm) world \<Rightarrow> bool" where
  "settled m0 w \<longleftrightarrow>
     inj (New (lockerPool (rowlock w))) \<and> (\<forall>n. New (lockerPool (rowlock w)) n \<noteq> Nil)
     \<and> instances_apart (rowlock w) \<and> no_nil (rowlock w) \<and> pristine m0 w"

section \<open>Concurrent callers\<close>

text \<open>
  Any number of goroutines call Lock and Unlock on one RowLock. Each runs the statements
  of its call in order; the statements of different goroutines interleave. A statement
  that touches the table, the pool or a mutex is one call of \<^verbatim>\<open>sync.Map\<close>,
  \<^verbatim>\<open>sync.Pool\<close> or \<^verbatim>\<open>sync.Mutex\<close>, which is atomic. Where a goroutine stands:
  outside a call; before line 58 (\<^verbatim>\<open>lockerPool.Get()\<close>); before line 59
  (\<^verbatim>\<open>LoadOrStore\<close>), with \<^verbatim>\<open>newLocker\<close>; before line 60 (\<^verbatim>\<open>if loaded\<close>),
  with \<^verbatim>\<open>newLocker\<close>, \<^verbatim>\<open>locker\<close> and \<^verbatim>\<open>loaded\<close>; before line 63 (the type
  assertion, the return, and the Locker's own Lock or Unlock), with \<^verbatim>\<open>locker\<close>; or
  stopped by a panic.
\<close>

datatype 'k pc =
    Idle
  | At58 "'k call"
  | At59 "'k call" iface
  | At60 "'k call" iface iface bool
  | At63 "'k call" iface
  | Faulted fault

text \<open>
  The state of the program: the RowLock, the mutexes (\<^verbatim>\<open>MutexNewLocker\<close>'s
  \<^verbatim>\<open>sync.Mutex\<close>: locked or not), where every goroutine stands, and for every
  goroutine the rows it is inside: those whose Lock it has completed with no Unlock
  since.
\<close>

record 'k system =
  shared :: "'k RowLock"
  mutexes :: "nat \<Rightarrow> bool"
  pcs :: "nat \<Rightarrow> 'k pc"
  holds :: "nat \<Rightarrow> 'k set"

text \<open>
  A goroutine calls Lock, Unlock or getLocker, or executes its next statement; the
  choice is the pool's, as before.
\<close>

datatype 'k event = Begin nat "'k call" | Advance nat choice

text \<open>
  Line 63 and the Locker's method. Lock on a locked mutex does not return: the
  goroutine stays where it is. Unlock on an unlocked mutex is a fatal error.
\<close>

definition finish :: "'k system \<Rightarrow> nat \<Rightarrow> 'k call \<Rightarrow> iface \<Rightarrow> 'k system" where
  "finish s t c v =
     (case v of
        Nil \<Rightarrow> s\<lparr>pcs := (pcs s)(t := Faulted TypeAssertion)\<rparr>
      | Ref l \<Rightarrow>
          (case c of
             LockCall r \<Rightarrow>
               if mutexes s l then s
               else s\<lparr>mutexes := (mutexes s)(l := True), pcs := (pcs s)(t := Idle),
                      holds := (holds s)(t := insert r (holds s t))\<rparr>
           | UnlockCall r \<Rightarrow>
               if mutexes s l
               then s\<lparr>mutexes := (mutexes s)(l := False), pcs := (pcs s)(t := Idle),
                      holds := (holds s)(t := holds s t - {r})\<rparr>
               else s\<lparr>pcs := (pcs s)(t := Faulted LockerFault)\<rparr>
           | GetLockerCall r \<Rightarrow> s\<lparr>pcs := (pcs s)(t := Idle)\<rparr>))"

definition advance :: "'k system \<Rightarrow> nat \<Rightarrow> choice \<Rightarrow> 'k system" where
  "advance s t ch =
     (case pcs s t of
        Idle \<Rightarrow> s
      | At58 c \<Rightarrow>
          (let (newLocker, p) = Get (lockerPool (shared s)) (pick ch)
           in s\<lparr>shared := \<lparr>locks = locks (shared s), lockerPool = p\<rparr>,
                 pcs := (pcs s)(t := At59 c newLocker)\<rparr>)
      | At59 c newLocker \<Rightarrow>
          (let (locker, loaded, m) = LoadOrStore (locks (shared s)) (row_of c) newLocker
           in s\<lparr>shared := \<lparr>locks = m, lockerPool = lockerPool (shared s)\<rparr>,
                 pcs := (pcs s)(t := At60 c newLocker locker loaded)\<rparr>)
      | At60 c newLocker locker loaded \<Rightarrow>
          s\<lparr>shared := \<lparr>locks = locks (shared s),
                        lockerPool = (if loaded then Put (lockerPool (shared s)) (keep ch) newLocker
                                      else lockerPool (shared s))\<rparr>,
            pcs := (pcs s)(t := At63 c locker)\<rparr>
      | At63 c locker \<Rightarrow> finish s t c locker
      | Faulted e \<Rightarrow> s)"

fun step :: "'k system \<Rightarrow> 'k event \<Rightarrow> 'k system" where
  "step s (Begin t c) = (if pcs s t = Idle then s\<lparr>pcs := (pcs s)(t := At58 c)\<rparr> else s)"
| "step s (Advance t ch) = advance s t ch"

fun steps :: "'k system \<Rightarrow> 'k event list \<Rightarrow> 'k system" where
  "steps s [] = s"
| "steps s (e # es) = steps (step s e) es"

text \<open>
  Callers pair Lock and Unlock: a goroutine calls Unlock on a row only while it is
  inside that row.
\<close>

fun paired :: "'k system \<Rightarrow> 'k event \<Rightarrow> bool" where
  "paired s (Begin t (UnlockCall r)) = (r \<in> holds s t)"
| "paired s e = True"

fun disciplined :: "'k system \<Rightarrow> 'k event list \<Rightarrow> bool" where
  "disciplined s [] = True"
| "disciplined s (e # es) = (paired s e \<and> disciplined (step s e) es)"

definition start :: "(nat \<Rightarrow> iface) \<Rightarrow> 'k system" where
  "start f = \<lparr>shared = NewRowLock f, mutexes = (\<lambda>l. False), pcs = (\<lambda>t. Idle), holds = (\<lambda>t. {})\<rparr>"

text \<open>
  A goroutine waits in Lock on row \<open>r\<close>: it has resolved the row's mutex, and the
  mutex is locked.
\<close>

definition waits :: "'k system \<Rightarrow> nat \<Rightarrow> 'k \<Rightarrow> bool" where
  "waits s t r \<longleftrightarrow> (\<exists>l. pcs s t = At63 (LockCall r) (Ref l) \<and> mutexes s l)"

text \<open>
  The candidate a goroutine owns: taken from the pool, and neither bound nor given
  back yet.
\<close>

fun owned :: "'k pc \<Rightarrow> iface option" where
  "owned (At59 c x) = Some x"
| "owned (At60 c x v loaded) = (if loaded then Some x else None)"
| "owned p = None"

fun call_of :: "'k pc \<Rightarrow> 'k call option" where
  "call_of (At58 c) = Some c"
| "call_of (At59 c x) = Some c"
| "call_of (At60 c x v loaded) = Some c"
| "call_of (At63 c v) = Some c"
| "call_of p = None"

text \<open>
  Every instance is in one place: bound to one row, idle in the pool, or owned by one
  goroutine.
\<close>

definition accounted :: "'k system \<Rightarrow> bool" where
  "accounted s \<longleftrightarrow>
     instances_apart (shared s)
     \<and> (\<forall>t x. owned (pcs s t) = Some x \<longrightarrow>
           x \<notin> ran (locks (shared s)) \<and> x \<notin> set (idle (lockerPool (shared s)))
           \<and> x \<in> New (lockerPool (shared s)) ` {..<calls (lockerPool (shared s))})
     \<and> (\<forall>t t' x. owned (pcs s t) = Some x \<and> owned (pcs s t') = Some x \<longrightarrow> t = t')"

text \<open>
  The \<^verbatim>\<open>locker\<close> a goroutine has loaded is the one bound to its row.
\<close>

definition agreed :: "'k system \<Rightarrow> bool" where
  "agreed s \<longleftrightarrow>
     (\<forall>t c x v b. pcs s t = At60 c x v b \<longrightarrow> locks (shared s) (row_of c) = Some v)
     \<and> (\<forall>t c v. pcs s t = At63 c v \<longrightarrow> locks (shared s) (row_of c) = Some v)"

text \<open>The values a goroutine has in its local variables; none of them is \<^verbatim>\<open>nil\<close>.\<close>

fun locals :: "'k pc \<Rightarrow> iface set" where
  "locals (At59 c x) = {x}"
| "locals (At60 c x v loaded) = {x, v}"
| "locals (At63 c v) = {v}"
| "locals p = {}"

definition nonnil :: "'k system \<Rightarrow> bool" where
  "nonnil s \<longleftrightarrow>
     no_nil (shared s) \<and> (\<forall>t. Nil \<notin> locals (pcs s t))
     \<and> (\<forall>t. pcs s t \<noteq> Faulted TypeAssertion)"

text \<open>
  A goroutine inside a row has the row's mutex locked; a locked mutex belongs to a row
  some goroutine is inside; no two goroutines are inside one row; a goroutine in an
  Unlock is inside its row; no goroutine has panicked.
\<close>

definition exclusive :: "'k system \<Rightarrow> bool" where
  "exclusive s \<longleftrightarrow>
     (\<forall>t r. r \<in> holds s t \<longrightarrow> (\<exists>l. locks (shared s) r = Some (Ref l) \<and> mutexes s l))
     \<and> (\<forall>l. mutexes s l \<longrightarrow> (\<exists>t r. r \<in> holds s t \<and> locks (shared s) r = Some (Ref l)))
     \<and> (\<forall>t t' r. r \<in> holds s t \<and> r \<in> holds s t' \<longrightarrow> t = t')
     \<and> (\<forall>t r. call_of (pcs s t) = Some (UnlockCall r) \<longrightarrow> r \<in> holds s t)
     \<and> (\<forall>t e. pcs s t \<noteq> Faulted e)"

definition safe :: "'k system \<Rightarrow> bool" where
  "safe s \<longleftrightarrow>
     inj (New (lockerPool (shared s))) \<and> (\<forall>n. New (lockerPool (shared s)) n \<noteq> Nil)
     \<and> accounted s \<and> nonnil s \<and> agreed s \<and> exclusive s"

text \<open>
  Goroutines 0 and 1 race on the new row 7, goroutine 1 wins and 0 waits; goroutine 2
  locks row 8 meanwhile, with the candidate 0 gave back; 1 unlocks 7 and 0 gets it.
\<close>

definition contended :: "nat event list" where
  "contended =
     [Begin 0 (LockCall 7), Begin 1 (LockCall 7),
      Advance 0 recycles, Advance 1 recycles, Advance 1 recycles, Advance 0 recycles,
      Advance 0 recycles, Advance 1 recycles, Advance 1 recycles, Advance 0 recycles,
      Begin 2 (LockCall 8),
      Advance 2 recycles, Advance 2 recycles, Advance 2 recycles, Advance 2 recycles,
      Begin 1 (UnlockCall 7),
      Advance 1 recycles, Advance 1 recycles, Advance 1 recycles, Advance 1 recycles,
      Advance 0 recycles]"

section \<open>One call of getLocker\<close>

lemma getLocker_unbound:
  "locks rl row = None \<Longrightarrow>
   getLocker rl ch row =
     (assertLocker (fst (Get (lockerPool rl) (pick ch))),
      \<lparr>locks = (locks rl)(row \<mapsto> fst (Get (lockerPool rl) (pick ch))),
       lockerPool = snd (Get (lockerPool rl) (pick ch))\<rparr>)"
  by (simp add: getLocker_def LoadOrStore_def split: prod.splits)

lemma getLocker_bound:
  "locks rl row = Some v \<Longrightarrow>
   getLocker rl ch row =
     (assertLocker v,
      \<lparr>locks = locks rl,
       lockerPool = Put (snd (Get (lockerPool rl) (pick ch))) (keep ch)
                      (fst (Get (lockerPool rl) (pick ch)))\<rparr>)"
  by (simp add: getLocker_def LoadOrStore_def split: prod.splits)

text \<open>
  C1. \<^verbatim>\<open>getLocker(row)\<close> is the spec's \<^verbatim>\<open>Resolve(row)\<close>, for every row key, every
  table, every pool and every behaviour of the pool: it leaves the table and the pool
  as Resolve leaves them (the candidate is acquired first; inserted, it is returned and
  not released; not inserted, it is released and the bound Locker is returned), and it
  returns Resolve's Locker itself: instance \<open>l\<close> when Resolve gives \<open>Ref l\<close>; the
  type assertion that ends it panics when Resolve gives \<^verbatim>\<open>nil\<close>.
\<close>

theorem getLocker_is_Resolve:
  "getLocker rl ch row =
     ((case fst (Resolve rl ch row) of Nil \<Rightarrow> Inl TypeAssertion | Ref l \<Rightarrow> Inr l),
      snd (Resolve rl ch row))"
proof (cases "locks rl row")
  case None
  then have "row \<notin> dom (locks rl)" by (simp add: domIff)
  then have "Resolve rl ch row =
      (fst (Get (lockerPool rl) (pick ch)),
       \<lparr>locks = (locks rl)(row \<mapsto> fst (Get (lockerPool rl) (pick ch))),
        lockerPool = snd (Get (lockerPool rl) (pick ch))\<rparr>)"
    by (simp add: Resolve_def GetOrInsert_def split: prod.splits)
  with None show ?thesis by (simp add: getLocker_unbound assertLocker_def)
next
  case (Some v)
  then have "row \<in> dom (locks rl)" by (simp add: domIff)
  with Some have "Resolve rl ch row =
      (v, \<lparr>locks = locks rl,
           lockerPool = Put (snd (Get (lockerPool rl) (pick ch))) (keep ch)
                          (fst (Get (lockerPool rl) (pick ch)))\<rparr>)"
    by (simp add: Resolve_def GetOrInsert_def split: prod.splits)
  with Some show ?thesis by (simp add: getLocker_bound assertLocker_def)
qed

text \<open>
  C5. The table's insert-if-absent, \<^verbatim>\<open>LoadOrStore\<close> as \<^verbatim>\<open>getLocker\<close> calls it,
  meets the contract of \<^verbatim>\<open>GetOrInsert\<close>, with \<open>didInsert\<close> the negation of
  \<open>loaded\<close>: on an unbound key it binds the candidate and returns it, not loaded;
  on a bound key it returns the existing Locker, loaded, and the table is unchanged
  (so the candidate is not bound by the call).
\<close>

theorem LoadOrStore_contract:
  "(t key = None \<longrightarrow> LoadOrStore t key c = (c, False, t(key \<mapsto> c)))
   \<and> (\<forall>e. t key = Some e \<longrightarrow> LoadOrStore t key c = (e, True, t))
   \<and> LoadOrStore t key c =
       (case GetOrInsert t key c of (bound, didInsert, t') \<Rightarrow> (bound, \<not> didInsert, t'))"
  by (cases "t key") (auto simp: LoadOrStore_def GetOrInsert_def domIff)

theorem LoadOrStore_contract_witness:
  "LoadOrStore [(1::nat) \<mapsto> Ref 0] 2 (Ref 5) = (Ref 5, False, [1 \<mapsto> Ref 0, 2 \<mapsto> Ref 5])
   \<and> LoadOrStore [(1::nat) \<mapsto> Ref 0] 1 (Ref 5) = (Ref 0, True, [1 \<mapsto> Ref 0])"
  using LoadOrStore_contract [of "[(1::nat) \<mapsto> Ref 0]" 2 "Ref 5"]
        LoadOrStore_contract [of "[(1::nat) \<mapsto> Ref 0]" 1 "Ref 5"]
  by simp

section \<open>What one call does to the table\<close>

lemma Get_New [simp]: "New (snd (Get p i)) = New p"
  by (simp add: Get_def split: option.splits)

lemma Put_New [simp]: "New (Put p k x) = New p"
  by (simp add: Put_def)

lemma getLocker_New [simp]: "New (lockerPool (snd (getLocker rl ch row))) = New (lockerPool rl)"
  by (cases "locks rl row") (simp_all add: getLocker_unbound getLocker_bound)

lemma getLocker_locks:
  "locks (snd (getLocker rl ch row)) =
     (case locks rl row of
        None \<Rightarrow> (locks rl)(row \<mapsto> fst (Get (lockerPool rl) (pick ch)))
      | Some v \<Rightarrow> locks rl)"
  by (cases "locks rl row") (simp_all add: getLocker_unbound getLocker_bound)

lemma getLocker_keeps:
  "locks rl k = Some v \<Longrightarrow> locks (snd (getLocker rl ch row)) k = Some v"
  by (auto simp: getLocker_locks split: option.splits)

lemma getLocker_dom: "dom (locks (snd (getLocker rl ch row))) = insert row (dom (locks rl))"
  by (auto simp: getLocker_locks split: option.splits)

lemma getLocker_other:
  "k \<noteq> row \<Longrightarrow> locks (snd (getLocker rl ch row)) k = locks rl k"
  by (auto simp: getLocker_locks split: option.splits)

lemma getLocker_returns_bound:
  "\<exists>v. locks (snd (getLocker rl ch row)) row = Some v \<and> fst (getLocker rl ch row) = assertLocker v"
  by (cases "locks rl row") (simp_all add: getLocker_unbound getLocker_bound)

text \<open>Lock, Unlock and getLocker change the table and the pool in the same way.\<close>

lemma exec_rowlock:
  "rowlock (snd (exec impl w c)) = snd (getLocker (rowlock w) (snd c) (row_of (fst c)))"
  by (cases c; cases "fst c")
     (auto simp: Lock_def Unlock_def split: prod.splits sum.splits)

section \<open>Runs\<close>

lemma run_append: "run impl w (cs @ ds) = run impl (run impl w cs) ds"
  by (induction cs arbitrary: w) simp_all

lemma run_keeps:
  "locks (rowlock w) k = Some v \<Longrightarrow> locks (rowlock (run impl w cs)) k = Some v"
  by (induction cs arbitrary: w) (simp_all add: exec_rowlock getLocker_keeps)

lemma run_dom:
  "dom (locks (rowlock (run impl w cs))) = dom (locks (rowlock w)) \<union> (row_of \<circ> fst) ` set cs"
  by (induction cs arbitrary: w) (auto simp: exec_rowlock getLocker_dom)

lemma run_New [simp]:
  "New (lockerPool (rowlock (run impl w cs))) = New (lockerPool (rowlock w))"
  by (induction cs arbitrary: w) (simp_all add: exec_rowlock)

lemma resolved_length [simp]: "length (resolved impl w cs) = length cs"
  by (induction cs arbitrary: w) simp_all

lemma outcomes_length [simp]: "length (outcomes impl w cs) = length cs"
  by (induction cs arbitrary: w) simp_all

text \<open>
  The Locker a call resolves is the one bound to its row in the table the call leaves.
\<close>

lemma resolved_bound:
  "i < length cs \<Longrightarrow>
   \<exists>v. locks (rowlock (run impl w (take (Suc i) cs))) (row_of (fst (cs ! i))) = Some v
      \<and> resolved impl w cs ! i = assertLocker v"
proof (induction cs arbitrary: w i)
  case Nil
  then show ?case by simp
next
  case (Cons c cs)
  show ?case
  proof (cases i)
    case 0
    then show ?thesis
      using getLocker_returns_bound [of "rowlock w" "snd c" "row_of (fst c)"]
      by (simp add: exec_rowlock)
  next
    case (Suc n)
    with Cons.prems have "n < length cs" by simp
    from Cons.IH [OF this, of "snd (exec impl w c)"] Suc show ?thesis by simp
  qed
qed

lemmas concrete_run =
  mutex_world_def never_recycles_def recycles_def Lock_def Unlock_def getLocker_def
  Get_def Put_def LoadOrStore_def NewRowLock_def MutexNewLocker_def assertLocker_def
  invoke_def Mutex_def

text \<open>
  C2. In every sequence of Lock, Unlock and getLocker calls on one RowLock, started in
  any state, two calls with the same row key resolve the same Locker: the one that is
  bound to the row when the earlier call ends (so, taking the first call for the row, the
  one that call bound). The later call returns that very instance: \<open>l\<close> when the row is
  bound to \<open>Ref l\<close>; when it is bound to \<^verbatim>\<open>nil\<close> both calls panic at the type
  assertion.
\<close>

theorem same_row_same_Locker:
  assumes "i \<le> j" and "j < length cs"
    and "row_of (fst (cs ! i)) = row_of (fst (cs ! j))"
  shows "resolved impl w cs ! i = resolved impl w cs ! j
       \<and> (\<exists>v. locks (rowlock (run impl w (take (Suc i) cs))) (row_of (fst (cs ! i))) = Some v
              \<and> resolved impl w cs ! j
                  = (case v of Nil \<Rightarrow> Inl TypeAssertion | Ref l \<Rightarrow> Inr l))"
proof -
  from assms have i: "i < length cs" by simp
  from resolved_bound [OF i, of impl w] obtain v where
    v: "locks (rowlock (run impl w (take (Suc i) cs))) (row_of (fst (cs ! i))) = Some v"
    and ri: "resolved impl w cs ! i = assertLocker v" by blast
  from resolved_bound [OF assms(2), of impl w] obtain v' where
    v': "locks (rowlock (run impl w (take (Suc j) cs))) (row_of (fst (cs ! j))) = Some v'"
    and rj: "resolved impl w cs ! j = assertLocker v'" by blast
  from assms(1) have "take (Suc j) cs = take (Suc i) cs @ take (j - i) (drop (Suc i) cs)"
    by (metis Suc_le_mono le_add_diff_inverse take_add diff_Suc_Suc)
  then have "run impl w (take (Suc j) cs) =
      run impl (run impl w (take (Suc i) cs)) (take (j - i) (drop (Suc i) cs))"
    by (simp add: run_append)
  with run_keeps [OF v] have
    "locks (rowlock (run impl w (take (Suc j) cs))) (row_of (fst (cs ! i))) = Some v"
    by simp
  with v' assms(3) have "v' = v" by simp
  with v ri rj show ?thesis by (simp add: assertLocker_def)
qed

theorem same_row_same_Locker_witness:
  "(1::nat) \<le> 2
   \<and> 2 < length [(LockCall (2::nat), never_recycles), (LockCall 1, never_recycles),
                  (UnlockCall 1, recycles)]
   \<and> row_of (fst ([(LockCall (2::nat), never_recycles), (LockCall 1, never_recycles),
                     (UnlockCall 1, recycles)] ! 1))
      = row_of (fst ([(LockCall (2::nat), never_recycles), (LockCall 1, never_recycles),
                       (UnlockCall 1, recycles)] ! 2))
   \<and> resolved Mutex mutex_world
        [(LockCall 2, never_recycles), (LockCall 1, never_recycles), (UnlockCall 1, recycles)] ! 1
      = Inr 1
   \<and> resolved Mutex mutex_world
        [(LockCall 2, never_recycles), (LockCall 1, never_recycles), (UnlockCall 1, recycles)] ! 2
      = Inr 1
   \<and> locks (rowlock (run Mutex mutex_world
        [(LockCall 2, never_recycles), (LockCall 1, never_recycles)])) 1 = Some (Ref 1)"
proof -
  let ?cs = "[(LockCall (2::nat), never_recycles), (LockCall 1, never_recycles),
              (UnlockCall 1, recycles)]"
  have a: "(1::nat) \<le> 2" and b: "2 < length ?cs"
    and c: "row_of (fst (?cs ! 1)) = row_of (fst (?cs ! 2))"
    by simp_all
  have d: "locks (rowlock (run Mutex mutex_world (take (Suc 1) ?cs))) (row_of (fst (?cs ! 1)))
      = Some (Ref 1)"
    by (simp add: concrete_run)
  from same_row_same_Locker [OF a b c, of Mutex mutex_world] obtain v where
    e: "resolved Mutex mutex_world ?cs ! 1 = resolved Mutex mutex_world ?cs ! 2"
    and v: "locks (rowlock (run Mutex mutex_world (take (Suc 1) ?cs))) (row_of (fst (?cs ! 1)))
      = Some v"
    and r: "resolved Mutex mutex_world ?cs ! 2
      = (case v of Nil \<Rightarrow> Inl TypeAssertion | Ref l \<Rightarrow> Inr l)"
    by (elim conjE exE)
  from v d have "v = Ref 1" by simp
  with r have r2: "resolved Mutex mutex_world ?cs ! 2 = Inr 1" by simp
  with e have r1: "resolved Mutex mutex_world ?cs ! 1 = Inr 1" by simp
  from d have t: "locks (rowlock (run Mutex mutex_world
        [(LockCall 2, never_recycles), (LockCall 1, never_recycles)])) 1 = Some (Ref 1)"
    by simp
  from a b c r1 r2 t show ?thesis by (intro conjI)
qed

text \<open>
  C3. Bindings are permanent: a row key that is bound to a Locker stays bound to that
  Locker through every sequence of Lock, Unlock and getLocker calls, with whatever keys;
  no call replaces the binding or removes the key.
\<close>

theorem binding_is_permanent:
  "locks (rowlock w) k = Some v \<Longrightarrow> locks (rowlock (run impl w cs)) k = Some v"
  by (rule run_keeps)

theorem binding_is_permanent_witness:
  "locks (rowlock (run Mutex mutex_world [(LockCall (1::nat), never_recycles)])) 1 = Some (Ref 0)
   \<and> locks (rowlock (run Mutex (run Mutex mutex_world [(LockCall 1, never_recycles)])
        [(UnlockCall 1, recycles), (LockCall 2, recycles), (UnlockCall 3, never_recycles),
         (LockCall 1, recycles)])) 1 = Some (Ref 0)"
proof -
  have b: "locks (rowlock (run Mutex mutex_world [(LockCall (1::nat), never_recycles)])) 1
      = Some (Ref 0)"
    by (simp add: concrete_run)
  show ?thesis
    by (intro conjI) (rule b, rule binding_is_permanent [OF b])
qed

text \<open>
  That only Lock creates a binding (C6 as it is worded) is false: Unlock resolves its row
  through \<^verbatim>\<open>getLocker\<close> too. On \<^verbatim>\<open>NewRowLock(MutexNewLocker)\<close>, Unlock(1) alone
  leaves row 1 bound, and Lock(1) was never called.
\<close>

theorem Unlock_binds_counterexample:
  "locks (rowlock (run Mutex mutex_world [(UnlockCall (1::nat), never_recycles)])) 1 = Some (Ref 0)
   \<and> LockCall 1 \<notin> fst ` set [(UnlockCall (1::nat), never_recycles)]"
  by (simp add: concrete_run)

text \<open>
  C6, as the source has it. A binding is created by the first call for its key,
  whichever it is: Lock, Unlock or getLocker. After any sequence of calls on a new
  RowLock the bound keys are exactly the keys of the calls made; a key no earlier call
  named is unbound, the call that names it binds it, and the binding stays.
\<close>

theorem binding_created_by_first_call:
  fixes k :: 'k and h :: "nat \<Rightarrow> 'm" and cs pre post :: "('k call \<times> choice) list"
  shows
  "dom (locks (rowlock (run impl \<lparr>rowlock = NewRowLock f, heap = h\<rparr> cs))) = (row_of \<circ> fst) ` set cs
   \<and> (k \<notin> (row_of \<circ> fst) ` set pre \<and> row_of (fst c) = k \<longrightarrow>
        locks (rowlock (run impl \<lparr>rowlock = NewRowLock f, heap = h\<rparr> pre)) k = None
        \<and> (\<exists>v. locks (rowlock (run impl \<lparr>rowlock = NewRowLock f, heap = h\<rparr> (pre @ [c]))) k = Some v
             \<and> locks (rowlock (run impl \<lparr>rowlock = NewRowLock f, heap = h\<rparr> (pre @ c # post))) k
                 = Some v))"
proof (intro conjI impI)
  let ?w = "\<lparr>rowlock = NewRowLock f, heap = h\<rparr> :: ('k, 'm) world"
  have d: "dom (locks (rowlock (run impl ?w ds))) = (row_of \<circ> fst) ` set ds" for ds
    by (simp add: run_dom NewRowLock_def)
  show "dom (locks (rowlock (run impl ?w cs))) = (row_of \<circ> fst) ` set cs"
    by (rule d)
  assume a: "k \<notin> (row_of \<circ> fst) ` set pre \<and> row_of (fst c) = k"
  then have "k \<notin> dom (locks (rowlock (run impl ?w pre)))"
    by (simp add: d)
  then show "locks (rowlock (run impl ?w pre)) k = None"
    by (simp add: domIff)
  have "row_of (fst c) \<in> dom (locks (rowlock (run impl ?w (pre @ [c]))))"
    by (simp add: d)
  with a obtain v where v: "locks (rowlock (run impl ?w (pre @ [c]))) k = Some v"
    by auto
  have "run impl ?w (pre @ c # post) = run impl (run impl ?w (pre @ [c])) post"
    by (simp add: run_append)
  with run_keeps [OF v, of impl post] have
    "locks (rowlock (run impl ?w (pre @ c # post))) k = Some v" by simp
  with v show "\<exists>v. locks (rowlock (run impl ?w (pre @ [c]))) k = Some v
      \<and> locks (rowlock (run impl ?w (pre @ c # post))) k = Some v"
    by (intro exI [of _ v] conjI)
qed

theorem binding_created_by_first_call_witness:
  "(1::nat) \<notin> (row_of \<circ> fst) ` set [(LockCall (2::nat), never_recycles)]
   \<and> row_of (fst (UnlockCall (1::nat), recycles)) = 1
   \<and> dom (locks (rowlock (run Mutex \<lparr>rowlock = NewRowLock MutexNewLocker, heap = (\<lambda>l. False)\<rparr>
        [(LockCall (2::nat), never_recycles), (UnlockCall 1, recycles), (LockCall 1, recycles)])))
      = {2, 1}
   \<and> locks (rowlock (run Mutex \<lparr>rowlock = NewRowLock MutexNewLocker, heap = (\<lambda>l. False)\<rparr>
        [(LockCall (2::nat), never_recycles)])) 1 = None
   \<and> (\<exists>v. locks (rowlock (run Mutex \<lparr>rowlock = NewRowLock MutexNewLocker, heap = (\<lambda>l. False)\<rparr>
        ([(LockCall (2::nat), never_recycles)] @ [(UnlockCall 1, recycles)]))) 1 = Some v
      \<and> locks (rowlock (run Mutex \<lparr>rowlock = NewRowLock MutexNewLocker, heap = (\<lambda>l. False)\<rparr>
        ([(LockCall (2::nat), never_recycles)] @ (UnlockCall 1, recycles) # [(LockCall 1, recycles)]))) 1
      = Some v)"
proof -
  have a: "(1::nat) \<notin> (row_of \<circ> fst) ` set [(LockCall (2::nat), never_recycles)]
      \<and> row_of (fst (UnlockCall (1::nat), recycles)) = 1"
    by simp
  have s: "(row_of \<circ> fst) ` set
      [(LockCall (2::nat), never_recycles), (UnlockCall 1, recycles), (LockCall 1, recycles)]
      = {2, 1}"
    by simp
  note t = binding_created_by_first_call [of Mutex MutexNewLocker "\<lambda>l. False"
      "[(LockCall (2::nat), never_recycles), (UnlockCall 1, recycles), (LockCall 1, recycles)]"
      "1::nat" "[(LockCall (2::nat), never_recycles)]" "(UnlockCall (1::nat), recycles)"
      "[(LockCall (1::nat), recycles)]"]
  from t have "dom (locks (rowlock (run Mutex
      \<lparr>rowlock = NewRowLock MutexNewLocker, heap = (\<lambda>l. False)\<rparr>
      [(LockCall (2::nat), never_recycles), (UnlockCall 1, recycles), (LockCall 1, recycles)])))
      = {2, 1}"
    by (simp only: s)
  moreover from t a have "locks (rowlock (run Mutex
        \<lparr>rowlock = NewRowLock MutexNewLocker, heap = (\<lambda>l. False)\<rparr>
        [(LockCall (2::nat), never_recycles)])) 1 = None
      \<and> (\<exists>v. locks (rowlock (run Mutex \<lparr>rowlock = NewRowLock MutexNewLocker, heap = (\<lambda>l. False)\<rparr>
        ([(LockCall (2::nat), never_recycles)] @ [(UnlockCall 1, recycles)]))) 1 = Some v
      \<and> locks (rowlock (run Mutex \<lparr>rowlock = NewRowLock MutexNewLocker, heap = (\<lambda>l. False)\<rparr>
        ([(LockCall (2::nat), never_recycles)] @ (UnlockCall 1, recycles) # [(LockCall 1, recycles)]))) 1
      = Some v)"
    by (rule conjunct2 [THEN mp])
  ultimately show ?thesis using a by blast
qed

section \<open>Distinct instances\<close>

lemma idle_without:
  assumes "distinct xs" and "n < length xs"
  shows "distinct (take n xs @ drop (Suc n) xs)"
    and "xs ! n \<notin> set (take n xs @ drop (Suc n) xs)"
    and "set (take n xs @ drop (Suc n) xs) \<subseteq> set xs"
proof -
  from assms(2) have e: "xs = take n xs @ xs ! n # drop (Suc n) xs"
    by (rule id_take_nth_drop)
  from assms(1) have "distinct (take n xs @ xs ! n # drop (Suc n) xs)"
    using e by simp
  then show "distinct (take n xs @ drop (Suc n) xs)"
    and "xs ! n \<notin> set (take n xs @ drop (Suc n) xs)"
    by auto
  show "set (take n xs @ drop (Suc n) xs) \<subseteq> set xs"
    using set_take_subset [of n xs] set_drop_subset [of "Suc n" xs] by auto
qed

text \<open>The candidate the pool hands out is bound to no row and is no longer idle.\<close>

lemma Get_apart:
  assumes f: "inj (New p)" and d: "distinct (idle p)"
    and a: "set (idle p) \<inter> R = {}"
    and b: "R \<union> set (idle p) \<subseteq> New p ` {..<calls p}"
  shows "fst (Get p i) \<notin> R"
    and "fst (Get p i) \<notin> set (idle (snd (Get p i)))"
    and "distinct (idle (snd (Get p i)))"
    and "set (idle (snd (Get p i))) \<inter> R = {}"
    and "insert (fst (Get p i)) (R \<union> set (idle (snd (Get p i))))
           \<subseteq> New p ` {..<calls (snd (Get p i))}"
proof -
  have fresh: "New p (calls p) \<notin> New p ` {..<calls p}"
    using f by (auto simp: inj_def)
  have up: "New p ` {..<calls p} \<subseteq> New p ` {..<Suc (calls p)}"
    by auto
  have "Get p i = (New p (calls p), p\<lparr>calls := Suc (calls p)\<rparr>)
      \<or> (\<exists>n. n < length (idle p)
            \<and> Get p i = (idle p ! n, p\<lparr>idle := take n (idle p) @ drop (Suc n) (idle p)\<rparr>))"
    by (cases i) (auto simp: Get_def)
  then consider (new) "Get p i = (New p (calls p), p\<lparr>calls := Suc (calls p)\<rparr>)"
    | (old) n where "n < length (idle p)"
        "Get p i = (idle p ! n, p\<lparr>idle := take n (idle p) @ drop (Suc n) (idle p)\<rparr>)"
    by blast
  then have "fst (Get p i) \<notin> R
      \<and> fst (Get p i) \<notin> set (idle (snd (Get p i)))
      \<and> distinct (idle (snd (Get p i)))
      \<and> set (idle (snd (Get p i))) \<inter> R = {}
      \<and> insert (fst (Get p i)) (R \<union> set (idle (snd (Get p i))))
           \<subseteq> New p ` {..<calls (snd (Get p i))}"
  proof cases
    case new
    with fresh a b d up show ?thesis by auto
  next
    case old
    from idle_without [OF d old(1)] have
      1: "distinct (take n (idle p) @ drop (Suc n) (idle p))"
      and 2: "idle p ! n \<notin> set (take n (idle p) @ drop (Suc n) (idle p))"
      and 3: "set (take n (idle p) @ drop (Suc n) (idle p)) \<subseteq> set (idle p)"
      by blast+
    from old(1) have 4: "idle p ! n \<in> set (idle p)" by simp
    from 4 a have 5: "idle p ! n \<notin> R" by blast
    from 3 a have 6: "set (take n (idle p) @ drop (Suc n) (idle p)) \<inter> R = {}" by blast
    from 3 4 b have 7: "insert (idle p ! n) (R \<union> set (take n (idle p) @ drop (Suc n) (idle p)))
        \<subseteq> New p ` {..<calls p}" by blast
    from old(2) 1 2 5 6 7 show ?thesis by simp
  qed
  then show "fst (Get p i) \<notin> R"
    and "fst (Get p i) \<notin> set (idle (snd (Get p i)))"
    and "distinct (idle (snd (Get p i)))"
    and "set (idle (snd (Get p i))) \<inter> R = {}"
    and "insert (fst (Get p i)) (R \<union> set (idle (snd (Get p i))))
           \<subseteq> New p ` {..<calls (snd (Get p i))}"
    by blast+
qed


lemma getLocker_apart:
  assumes f: "inj (New (lockerPool rl))" and v: "instances_apart rl"
  shows "instances_apart (snd (getLocker rl ch row))"
proof -
  let ?p = "lockerPool rl"
  let ?c = "fst (Get ?p (pick ch))"
  let ?q = "snd (Get ?p (pick ch))"
  from v have d: "distinct (idle ?p)"
    and a: "set (idle ?p) \<inter> ran (locks rl) = {}"
    and b: "ran (locks rl) \<union> set (idle ?p) \<subseteq> New ?p ` {..<calls ?p}"
    and i: "inj_on (locks rl) (dom (locks rl))"
    by (simp_all add: instances_apart_def)
  note g = Get_apart [OF f d a b, of "pick ch"]
  show ?thesis
  proof (cases "locks rl row")
    case None
    have "inj_on ((locks rl)(row \<mapsto> ?c)) (insert row (dom (locks rl)))"
    proof (rule inj_onI)
      fix x y
      assume x: "x \<in> insert row (dom (locks rl))" and y: "y \<in> insert row (dom (locks rl))"
        and e: "((locks rl)(row \<mapsto> ?c)) x = ((locks rl)(row \<mapsto> ?c)) y"
      show "x = y"
      proof (cases "x = row"; cases "y = row")
        assume "x = row" "y \<noteq> row"
        with e y have "locks rl y = Some ?c" by simp
        with g(1) show ?thesis by (simp add: ran_def)
      next
        assume "x \<noteq> row" "y = row"
        with e x have "locks rl x = Some ?c" by simp
        with g(1) show ?thesis by (simp add: ran_def)
      next
        assume "x \<noteq> row" "y \<noteq> row"
        with e x y i show ?thesis by (simp add: inj_on_def)
      qed simp
    qed
    moreover from None have r: "ran ((locks rl)(row \<mapsto> ?c)) = insert ?c (ran (locks rl))"
      by simp
    moreover from g(2,4) have "set (idle ?q) \<inter> insert ?c (ran (locks rl)) = {}"
      by blast
    moreover from g(5) have "insert ?c (ran (locks rl)) \<union> set (idle ?q)
        \<subseteq> New ?p ` {..<calls ?q}" by blast
    ultimately show ?thesis
      using None g(3) by (simp add: instances_apart_def getLocker_unbound)
  next
    case (Some w)
    have s: "set (idle (Put ?q (keep ch) ?c)) \<subseteq> insert ?c (set (idle ?q))"
      by (auto simp: Put_def)
    have "distinct (idle (Put ?q (keep ch) ?c))"
      using g(2,3) by (simp add: Put_def)
    moreover have "set (idle (Put ?q (keep ch) ?c)) \<inter> ran (locks rl) = {}"
      using s g(1,4) by blast
    moreover have "ran (locks rl) \<union> set (idle (Put ?q (keep ch) ?c))
        \<subseteq> New ?p ` {..<calls (Put ?q (keep ch) ?c)}"
      using s g(5) by (auto simp: Put_def)
    ultimately show ?thesis
      using Some i by (simp add: instances_apart_def getLocker_bound)
  qed
qed

lemma NewRowLock_apart: "instances_apart (NewRowLock f)"
  by (simp add: instances_apart_def NewRowLock_def)

lemma run_apart:
  "inj (New (lockerPool (rowlock w))) \<Longrightarrow> instances_apart (rowlock w) \<Longrightarrow>
   instances_apart (rowlock (run impl w cs))"
  by (induction cs arbitrary: w) (simp_all add: exec_rowlock getLocker_apart)

lemma run_rows_apart:
  assumes "inj f"
  shows "(\<forall>k k' v. locks (rowlock (run impl \<lparr>rowlock = NewRowLock f, heap = h\<rparr> cs)) k = Some v
            \<and> locks (rowlock (run impl \<lparr>rowlock = NewRowLock f, heap = h\<rparr> cs)) k' = Some v
            \<longrightarrow> k = k')
       \<and> set (idle (lockerPool (rowlock (run impl \<lparr>rowlock = NewRowLock f, heap = h\<rparr> cs))))
           \<inter> ran (locks (rowlock (run impl \<lparr>rowlock = NewRowLock f, heap = h\<rparr> cs))) = {}"
proof -
  let ?w = "\<lparr>rowlock = NewRowLock f, heap = h\<rparr>"
  from assms have "inj (New (lockerPool (rowlock ?w)))"
    by (simp add: NewRowLock_def)
  moreover have "instances_apart (rowlock ?w)"
    by (simp add: NewRowLock_apart)
  ultimately have v: "instances_apart (rowlock (run impl ?w cs))"
    by (rule run_apart)
  then have "inj_on (locks (rowlock (run impl ?w cs))) (dom (locks (rowlock (run impl ?w cs))))"
    by (simp add: instances_apart_def)
  then have "\<forall>k k' v. locks (rowlock (run impl ?w cs)) k = Some v
      \<and> locks (rowlock (run impl ?w cs)) k' = Some v \<longrightarrow> k = k'"
    by (auto simp: inj_on_def dom_def)
  with v show ?thesis by (simp add: instances_apart_def)
qed

lemma Get_no_nil:
  assumes "\<forall>n. New p n \<noteq> Nil" and "Nil \<notin> set (idle p)"
  shows "fst (Get p i) \<noteq> Nil" and "Nil \<notin> set (idle (snd (Get p i)))"
proof -
  have "set (take n (idle p) @ drop (Suc n) (idle p)) \<subseteq> set (idle p)" for n
    using set_take_subset [of n "idle p"] set_drop_subset [of "Suc n" "idle p"] by auto
  with assms(2) have d: "Nil \<notin> set (take n (idle p) @ drop (Suc n) (idle p))" for n
    by blast
  from assms(2) have e: "n < length (idle p) \<Longrightarrow> idle p ! n \<noteq> Nil" for n
    by (metis nth_mem)
  from assms d e show "fst (Get p i) \<noteq> Nil" and "Nil \<notin> set (idle (snd (Get p i)))"
    by (cases i; simp add: Get_def)+
qed

lemma getLocker_no_nil:
  assumes f: "\<forall>n. New (lockerPool rl) n \<noteq> Nil" and v: "no_nil rl"
  shows "no_nil (snd (getLocker rl ch row))" and "\<exists>l. fst (getLocker rl ch row) = Inr l"
proof -
  from v have i: "Nil \<notin> set (idle (lockerPool rl))" and r: "Nil \<notin> ran (locks rl)"
    by (simp_all add: no_nil_def)
  note g = Get_no_nil [OF f i, of "pick ch"]
  have "no_nil (snd (getLocker rl ch row)) \<and> (\<exists>l. fst (getLocker rl ch row) = Inr l)"
  proof (cases "locks rl row")
    case None
    with g r show ?thesis
      by (cases "fst (Get (lockerPool rl) (pick ch))")
         (auto simp: getLocker_unbound no_nil_def assertLocker_def ran_def)
  next
    case (Some b)
    with r have "b \<noteq> Nil" by (auto simp: ran_def)
    with Some g r show ?thesis
      by (cases b) (auto simp: getLocker_bound no_nil_def assertLocker_def Put_def)
  qed
  then show "no_nil (snd (getLocker rl ch row))" and "\<exists>l. fst (getLocker rl ch row) = Inr l"
    by blast+
qed

lemma run_no_nil:
  "\<forall>n. New (lockerPool (rowlock w)) n \<noteq> Nil \<Longrightarrow> no_nil (rowlock w) \<Longrightarrow>
   no_nil (rowlock (run impl w cs))"
  by (induction cs arbitrary: w) (simp_all add: exec_rowlock getLocker_no_nil)

lemma NewRowLock_no_nil: "no_nil (NewRowLock f)"
  by (simp add: no_nil_def NewRowLock_def)

lemma invoke_outcome:
  "fst (invoke meth h l) \<noteq> Panicked TypeAssertion"
  by (simp add: invoke_def split: effect.splits)

lemma exec_no_facade_fault:
  assumes "\<exists>l. fst (getLocker (rowlock w) (snd c) (row_of (fst c))) = Inr l"
  shows "fst (exec impl w c) \<noteq> Panicked TypeAssertion"
proof -
  from assms obtain l where
    l: "fst (getLocker (rowlock w) (snd c) (row_of (fst c))) = Inr l" by blast
  obtain a ch where c: "c = (a, ch)" by (cases c)
  from l c invoke_outcome [of "locker_Lock impl" "heap w" l]
    invoke_outcome [of "locker_Unlock impl" "heap w" l]
  show ?thesis
    by (cases a) (auto simp: Lock_def Unlock_def split: prod.splits sum.splits)
qed

lemma outcomes_no_facade_fault:
  "\<forall>n. New (lockerPool (rowlock w)) n \<noteq> Nil \<Longrightarrow> no_nil (rowlock w) \<Longrightarrow>
   Panicked TypeAssertion \<notin> set (outcomes impl w cs)"
proof (induction cs arbitrary: w)
  case Nil
  then show ?case by simp
next
  case (Cons c cs)
  from Cons.prems have "fst (exec impl w c) \<noteq> Panicked TypeAssertion"
    by (intro exec_no_facade_fault getLocker_no_nil)
  moreover from Cons.prems have "no_nil (rowlock (snd (exec impl w c)))"
    by (simp add: exec_rowlock getLocker_no_nil)
  with Cons.prems have "Panicked TypeAssertion \<notin> set (outcomes impl (snd (exec impl w c)) cs)"
    by (intro Cons.IH) (simp_all add: exec_rowlock)
  ultimately show ?case by auto
qed

lemma Lock_resolved:
  "fst (getLocker (rowlock w) ch row) = Inr l \<Longrightarrow>
   Lock impl w ch row =
     (fst (invoke (locker_Lock impl) (heap w) l),
      \<lparr>rowlock = snd (getLocker (rowlock w) ch row),
       heap = snd (invoke (locker_Lock impl) (heap w) l)\<rparr>)"
  by (cases "getLocker (rowlock w) ch row") (simp add: Lock_def split: prod.splits)

lemma Unlock_resolved:
  "fst (getLocker (rowlock w) ch row) = Inr l \<Longrightarrow>
   Unlock impl w ch row =
     (fst (invoke (locker_Unlock impl) (heap w) l),
      \<lparr>rowlock = snd (getLocker (rowlock w) ch row),
       heap = snd (invoke (locker_Unlock impl) (heap w) l)\<rparr>)"
  by (cases "getLocker (rowlock w) ch row") (simp add: Unlock_def split: prod.splits)

lemma run_never_faults:
  assumes "\<forall>n. f n \<noteq> Nil"
  shows "Panicked TypeAssertion \<notin> set (outcomes impl \<lparr>rowlock = NewRowLock f, heap = h\<rparr> cs)
       \<and> (\<exists>l. fst (getLocker (rowlock (run impl \<lparr>rowlock = NewRowLock f, heap = h\<rparr> cs)) ch row)
                 = Inr l
              \<and> fst (Lock impl (run impl \<lparr>rowlock = NewRowLock f, heap = h\<rparr> cs) ch row)
                 = fst (invoke (locker_Lock impl)
                         (heap (run impl \<lparr>rowlock = NewRowLock f, heap = h\<rparr> cs)) l)
              \<and> fst (Unlock impl (run impl \<lparr>rowlock = NewRowLock f, heap = h\<rparr> cs) ch row)
                 = fst (invoke (locker_Unlock impl)
                         (heap (run impl \<lparr>rowlock = NewRowLock f, heap = h\<rparr> cs)) l))"
proof -
  let ?w = "\<lparr>rowlock = NewRowLock f, heap = h\<rparr>"
  from assms have n: "\<forall>n. New (lockerPool (rowlock ?w)) n \<noteq> Nil"
    by (simp add: NewRowLock_def)
  have z: "no_nil (rowlock ?w)" by (simp add: NewRowLock_no_nil)
  from n z have 1: "Panicked TypeAssertion \<notin> set (outcomes impl ?w cs)"
    by (rule outcomes_no_facade_fault)
  from n z have z': "no_nil (rowlock (run impl ?w cs))" by (rule run_no_nil)
  from n have n': "\<forall>n. New (lockerPool (rowlock (run impl ?w cs))) n \<noteq> Nil" by simp
  from getLocker_no_nil(2) [OF n' z', of ch row] obtain l where
    l: "fst (getLocker (rowlock (run impl ?w cs)) ch row) = Inr l" ..
  have "fst (getLocker (rowlock (run impl ?w cs)) ch row) = Inr l
      \<and> fst (Lock impl (run impl ?w cs) ch row)
        = fst (invoke (locker_Lock impl) (heap (run impl ?w cs)) l)
      \<and> fst (Unlock impl (run impl ?w cs) ch row)
        = fst (invoke (locker_Unlock impl) (heap (run impl ?w cs)) l)"
    by (simp add: l Lock_resolved [OF l] Unlock_resolved [OF l])
  then show ?thesis using 1 by (intro conjI exI [of _ l]) simp_all
qed

section \<open>The heap of Locker states\<close>

text \<open>A call changes the state of the Locker it resolves, and of no other.\<close>

lemma Lock_faulted:
  "fst (getLocker (rowlock w) ch row) = Inl e \<Longrightarrow>
   Lock impl w ch row =
     (Panicked e, \<lparr>rowlock = snd (getLocker (rowlock w) ch row), heap = heap w\<rparr>)"
  by (cases "getLocker (rowlock w) ch row") (simp add: Lock_def)

lemma Unlock_faulted:
  "fst (getLocker (rowlock w) ch row) = Inl e \<Longrightarrow>
   Unlock impl w ch row =
     (Panicked e, \<lparr>rowlock = snd (getLocker (rowlock w) ch row), heap = heap w\<rparr>)"
  by (cases "getLocker (rowlock w) ch row") (simp add: Unlock_def)

lemma invoke_other: "l' \<noteq> l \<Longrightarrow> snd (invoke meth h l') l = h l"
  by (simp add: invoke_def split: effect.splits)

lemma exec_heap:
  assumes "fst (getLocker (rowlock w) (snd c) (row_of (fst c))) \<noteq> Inr l"
  shows "heap (snd (exec impl w c)) l = heap w l"
proof -
  obtain a ch where c: "c = (a, ch)" by (cases c)
  show ?thesis
  proof (cases "fst (getLocker (rowlock w) ch (row_of a))")
    case (Inl e)
    with c show ?thesis
      by (cases a) (simp_all add: Lock_faulted Unlock_faulted split: prod.splits sum.splits)
  next
    case (Inr l')
    with assms c have "l' \<noteq> l" by auto
    with Inr c show ?thesis
      by (cases a)
         (simp_all add: Lock_resolved Unlock_resolved invoke_other split: prod.splits sum.splits)
  qed
qed

lemma run_heap:
  "Ref l \<notin> ran (locks (rowlock (run impl w cs))) \<Longrightarrow> heap (run impl w cs) l = heap w l"
proof (induction cs arbitrary: w)
  case Nil
  then show ?case by simp
next
  case (Cons c cs)
  from Cons.prems have r: "Ref l \<notin> ran (locks (rowlock (run impl (snd (exec impl w c)) cs)))"
    by simp
  have "fst (getLocker (rowlock w) (snd c) (row_of (fst c))) \<noteq> Inr l"
  proof
    assume e: "fst (getLocker (rowlock w) (snd c) (row_of (fst c))) = Inr l"
    from getLocker_returns_bound [of "rowlock w" "snd c" "row_of (fst c)"] obtain v where
      v: "locks (snd (getLocker (rowlock w) (snd c) (row_of (fst c)))) (row_of (fst c)) = Some v"
      and a: "fst (getLocker (rowlock w) (snd c) (row_of (fst c))) = assertLocker v"
      by blast
    from a e have "v = Ref l"
      by (cases v) (simp_all add: assertLocker_def)
    with v have "locks (rowlock (snd (exec impl w c))) (row_of (fst c)) = Some (Ref l)"
      by (simp add: exec_rowlock)
    then have "locks (rowlock (run impl (snd (exec impl w c)) cs)) (row_of (fst c)) = Some (Ref l)"
      by (rule run_keeps)
    with r show False by (simp add: ran_def)
  qed
  then have "heap (snd (exec impl w c)) l = heap w l"
    by (rule exec_heap)
  with Cons.IH [OF r] show ?case by simp
qed

section \<open>Unlock on a new row\<close>

lemma reached_apart:
  "inj f \<Longrightarrow> instances_apart (rowlock (run impl \<lparr>rowlock = NewRowLock f, heap = h\<rparr> cs))"
  by (rule run_apart) (simp_all add: NewRowLock_def NewRowLock_apart [unfolded NewRowLock_def])

lemma reached_no_nil:
  "\<forall>n. f n \<noteq> Nil \<Longrightarrow> no_nil (rowlock (run impl \<lparr>rowlock = NewRowLock f, heap = h\<rparr> cs))"
  by (rule run_no_nil) (simp_all add: NewRowLock_def NewRowLock_no_nil [unfolded NewRowLock_def])

lemma reached_New [simp]:
  "New (lockerPool (rowlock (run impl \<lparr>rowlock = NewRowLock f, heap = h\<rparr> cs))) = f"
  by (simp add: NewRowLock_def)

text \<open>
  For every factory (C10 as it is worded) this is false. The source asks of a
  \<^verbatim>\<open>NewLocker\<close> that it "create a new Locker", and Unlock on a new row relies on
  it: with a factory that returns \<^verbatim>\<open>nil\<close>, Unlock on a new row panics at the type
  assertion that ends \<^verbatim>\<open>getLocker\<close>, so resolution fails; with a factory that hands
  out one shared mutex, Unlock on the new row 2 after Lock(1) binds row 2 to the Locker
  of row 1, which is locked, and unlocks it.
\<close>

theorem Unlock_of_unbound_row_counterexample:
  "outcomes Mutex \<lparr>rowlock = NewRowLock (\<lambda>n. Nil), heap = (\<lambda>l. False)\<rparr>
     [(UnlockCall (1::nat), never_recycles)] = [Panicked TypeAssertion]
   \<and> outcomes Mutex \<lparr>rowlock = NewRowLock (\<lambda>n. Ref 0), heap = (\<lambda>l. False)\<rparr>
     [(LockCall (1::nat), never_recycles), (UnlockCall 2, never_recycles)] = [Completed, Completed]
   \<and> locks (rowlock (run Mutex \<lparr>rowlock = NewRowLock (\<lambda>n. Ref 0), heap = (\<lambda>l. False)\<rparr>
         [(LockCall (1::nat), never_recycles), (UnlockCall 2, never_recycles)])) 2 = Some (Ref 0)
   \<and> locks (rowlock (run Mutex \<lparr>rowlock = NewRowLock (\<lambda>n. Ref 0), heap = (\<lambda>l. False)\<rparr>
         [(LockCall (1::nat), never_recycles), (UnlockCall 2, never_recycles)])) 1 = Some (Ref 0)"
  by (simp add: concrete_run)

text \<open>
  C10, as the source has it. Unlock on a row key with no binding, in any state a new
  RowLock reaches, with a factory that returns a distinct non-nil instance at every
  call: resolution does not fail; the candidate the pool hands out (newly made or
  recycled, but bound to no row, and in the state it was created in: no Lock or Unlock
  has touched it) is bound to the key and stays bound to it through every later call;
  and Unlock ends as the Locker's own Unlock ends on that instance.
\<close>

theorem Unlock_of_unbound_row:
  fixes impl :: "'m Locker" and f :: "nat \<Rightarrow> iface" and h :: "nat \<Rightarrow> 'm"
    and cs :: "('k call \<times> choice) list" and W :: "('k, 'm) world"
  defines "W \<equiv> run impl \<lparr>rowlock = NewRowLock f, heap = h\<rparr> cs"
  assumes f: "inj f" and n: "\<forall>n. f n \<noteq> Nil"
    and u: "locks (rowlock W) row = None"
  shows "\<exists>l. fst (Get (lockerPool (rowlock W)) (pick ch)) = Ref l
      \<and> Ref l \<notin> ran (locks (rowlock W))
      \<and> heap W l = h l
      \<and> fst (getLocker (rowlock W) ch row) = Inr l
      \<and> (\<forall>ds. locks (rowlock (run impl (snd (Unlock impl W ch row)) ds)) row = Some (Ref l))
      \<and> fst (Unlock impl W ch row) = fst (invoke (locker_Unlock impl) (heap W) l)"
proof -
  let ?p = "lockerPool (rowlock W)"
  let ?c = "fst (Get ?p (pick ch))"
  have a: "instances_apart (rowlock W)"
    unfolding W_def using f by (rule reached_apart)
  have z: "no_nil (rowlock W)"
    unfolding W_def using n by (rule reached_no_nil)
  have N: "New ?p = f"
    unfolding W_def by (simp add: NewRowLock_def)
  from a have d: "distinct (idle ?p)"
    and i: "set (idle ?p) \<inter> ran (locks (rowlock W)) = {}"
    and s: "ran (locks (rowlock W)) \<union> set (idle ?p) \<subseteq> New ?p ` {..<calls ?p}"
    by (simp_all add: instances_apart_def)
  from f N have "inj (New ?p)" by simp
  from Get_apart(1) [OF this d i s, of "pick ch"] have 1: "?c \<notin> ran (locks (rowlock W))" .
  from z have "Nil \<notin> set (idle ?p)" by (simp add: no_nil_def)
  with n N have "?c \<noteq> Nil" by (intro Get_no_nil(1)) simp_all
  then obtain l where l: "?c = Ref l" by (cases ?c) simp_all
  from 1 l have 2: "Ref l \<notin> ran (locks (rowlock W))" by simp
  then have 3: "heap W l = h l"
    unfolding W_def using run_heap [of l impl "\<lparr>rowlock = NewRowLock f, heap = h\<rparr>" cs] by simp
  from u l have g: "getLocker (rowlock W) ch row =
      (Inr l, \<lparr>locks = (locks (rowlock W))(row \<mapsto> Ref l), lockerPool = snd (Get ?p (pick ch))\<rparr>)"
    by (simp add: getLocker_unbound assertLocker_def)
  then have 4: "fst (getLocker (rowlock W) ch row) = Inr l" by simp
  from g have "locks (rowlock (snd (Unlock impl W ch row))) row = Some (Ref l)"
    by (simp add: Unlock_resolved [OF 4])
  then have 5: "\<forall>ds. locks (rowlock (run impl (snd (Unlock impl W ch row)) ds)) row = Some (Ref l)"
    by (simp add: run_keeps)
  have 6: "fst (Unlock impl W ch row) = fst (invoke (locker_Unlock impl) (heap W) l)"
    by (simp add: Unlock_resolved [OF 4])
  from l 2 3 4 5 6 show ?thesis by blast
qed


theorem Unlock_of_unbound_row_witness:
  "inj MutexNewLocker \<and> (\<forall>n. MutexNewLocker n \<noteq> Nil)
   \<and> locks (rowlock (run Mutex \<lparr>rowlock = NewRowLock MutexNewLocker, heap = (\<lambda>l. False)\<rparr>
        [(LockCall (1::nat), recycles), (LockCall 1, recycles)])) 2 = None
   \<and> fst (Unlock Mutex (run Mutex \<lparr>rowlock = NewRowLock MutexNewLocker, heap = (\<lambda>l. False)\<rparr>
        [(LockCall (1::nat), recycles), (LockCall 1, recycles)]) recycles 2) = Panicked LockerFault
   \<and> (\<exists>l. fst (Get (lockerPool (rowlock (run Mutex
              \<lparr>rowlock = NewRowLock MutexNewLocker, heap = (\<lambda>l. False)\<rparr>
              [(LockCall (1::nat), recycles), (LockCall 1, recycles)]))) (pick recycles)) = Ref l
      \<and> Ref l \<notin> ran (locks (rowlock (run Mutex
              \<lparr>rowlock = NewRowLock MutexNewLocker, heap = (\<lambda>l. False)\<rparr>
              [(LockCall (1::nat), recycles), (LockCall 1, recycles)])))
      \<and> heap (run Mutex \<lparr>rowlock = NewRowLock MutexNewLocker, heap = (\<lambda>l. False)\<rparr>
              [(LockCall (1::nat), recycles), (LockCall 1, recycles)]) l = False
      \<and> (\<forall>ds. locks (rowlock (run Mutex (snd (Unlock Mutex (run Mutex
              \<lparr>rowlock = NewRowLock MutexNewLocker, heap = (\<lambda>l. False)\<rparr>
              [(LockCall (1::nat), recycles), (LockCall 1, recycles)]) recycles 2)) ds)) 2
            = Some (Ref l)))"
proof -
  let ?W = "run Mutex \<lparr>rowlock = NewRowLock MutexNewLocker, heap = (\<lambda>l. False)\<rparr>
        [(LockCall (1::nat), recycles), (LockCall 1, recycles)]"
  have a: "inj MutexNewLocker"
    by (simp add: inj_def MutexNewLocker_def)
  have b: "\<forall>n. MutexNewLocker n \<noteq> Nil"
    by (simp add: MutexNewLocker_def)
  have c: "locks (rowlock ?W) 2 = None"
    by (simp add: concrete_run)
  have d: "fst (Unlock Mutex ?W recycles 2) = Panicked LockerFault"
    by (simp add: concrete_run)
  from Unlock_of_unbound_row [OF a b c, of recycles] a b c d show ?thesis
    by blast
qed

section \<open>The pool is transparent\<close>

lemma assertLocker_inject: "assertLocker v = assertLocker v' \<Longrightarrow> v = v'"
  by (cases v; cases v') (simp_all add: assertLocker_def)

lemma resolved_final:
  assumes "i < length cs"
  shows "\<exists>v. locks (rowlock (run impl w cs)) (row_of (fst (cs ! i))) = Some v
      \<and> resolved impl w cs ! i = assertLocker v"
proof -
  from resolved_bound [OF assms, of impl w] obtain v where
    v: "locks (rowlock (run impl w (take (Suc i) cs))) (row_of (fst (cs ! i))) = Some v"
    and r: "resolved impl w cs ! i = assertLocker v" by blast
  have "run impl w cs = run impl (run impl w (take (Suc i) cs)) (drop (Suc i) cs)"
    by (simp add: run_append [symmetric])
  with run_keeps [OF v, of impl "drop (Suc i) cs"] r show ?thesis by simp
qed

text \<open>
  With a factory of distinct instances, two calls of a run resolve the same Locker
  exactly when they name the same row.
\<close>

lemma resolved_pattern:
  assumes f: "inj f" and i: "i < length cs" and j: "j < length cs"
  shows "resolved impl \<lparr>rowlock = NewRowLock f, heap = h\<rparr> cs ! i
           = resolved impl \<lparr>rowlock = NewRowLock f, heap = h\<rparr> cs ! j
         \<longleftrightarrow> row_of (fst (cs ! i)) = row_of (fst (cs ! j))"
proof -
  let ?w = "\<lparr>rowlock = NewRowLock f, heap = h\<rparr>"
  let ?t = "locks (rowlock (run impl ?w cs))"
  from resolved_final [OF i, of impl ?w] obtain v where
    v: "?t (row_of (fst (cs ! i))) = Some v" and ri: "resolved impl ?w cs ! i = assertLocker v"
    by blast
  from resolved_final [OF j, of impl ?w] obtain v' where
    v': "?t (row_of (fst (cs ! j))) = Some v'" and rj: "resolved impl ?w cs ! j = assertLocker v'"
    by blast
  from reached_apart [OF f, of impl h cs] have inj: "inj_on ?t (dom ?t)"
    by (simp add: instances_apart_def)
  show ?thesis
  proof
    assume "resolved impl ?w cs ! i = resolved impl ?w cs ! j"
    with ri rj have "v = v'" by (simp add: assertLocker_inject)
    with v v' have "?t (row_of (fst (cs ! i))) = ?t (row_of (fst (cs ! j)))" by simp
    moreover from v v' have "row_of (fst (cs ! i)) \<in> dom ?t" "row_of (fst (cs ! j)) \<in> dom ?t"
      by blast+
    ultimately show "row_of (fst (cs ! i)) = row_of (fst (cs ! j))"
      using inj by (simp add: inj_on_def)
  next
    assume "row_of (fst (cs ! i)) = row_of (fst (cs ! j))"
    with v v' have "v = v'" by simp
    with ri rj show "resolved impl ?w cs ! i = resolved impl ?w cs ! j" by simp
  qed
qed

lemma rows_of_same_calls:
  fixes cs cs' :: "('k call \<times> choice) list"
  assumes "map fst cs = map fst cs'"
  shows "(row_of \<circ> fst) ` set (take n cs) = (row_of \<circ> fst) ` set (take n cs')"
proof -
  have r: "(row_of \<circ> fst) ` set (take n ds) = row_of ` set (take n (map fst ds))"
    for ds :: "('k call \<times> choice) list"
    by (simp add: take_map image_comp)
  show ?thesis
    by (simp only: r [of cs] r [of cs'] assms)
qed

lemma nth_same_call:
  "map fst cs = map fst cs' \<Longrightarrow> i < length cs \<Longrightarrow> fst (cs ! i) = fst (cs' ! i)"
  by (metis length_map nth_map)

lemma exec_resolved:
  "fst (getLocker (rowlock w) ch (row_of a)) = Inr l \<Longrightarrow>
   exec impl w (a, ch) =
     (fst (invoke (method_of impl a) (heap w) l),
      \<lparr>rowlock = snd (getLocker (rowlock w) ch (row_of a)),
       heap = snd (invoke (method_of impl a) (heap w) l)\<rparr>)"
proof (cases a)
  case (GetLockerCall r)
  assume "fst (getLocker (rowlock w) ch (row_of a)) = Inr l"
  with GetLockerCall show ?thesis
    by (cases "getLocker (rowlock w) ch r") (simp add: invoke_def)
qed (simp_all add: Lock_resolved Unlock_resolved)

lemma invoke_same:
  "h l = h' l' \<Longrightarrow>
   fst (invoke m h l) = fst (invoke m h' l') \<and> snd (invoke m h l) l = snd (invoke m h' l') l'"
  by (simp add: invoke_def split: effect.splits)

lemma exec_pristine:
  assumes "pristine m0 w"
  shows "pristine m0 (snd (exec impl w c))"
  unfolding pristine_def
proof (intro allI impI)
  fix l
  let ?g = "getLocker (rowlock w) (snd c) (row_of (fst c))"
  assume u: "Ref l \<notin> ran (locks (rowlock (snd (exec impl w c))))"
  then have u': "Ref l \<notin> ran (locks (snd ?g))"
    by (simp add: exec_rowlock)
  have "Ref l \<notin> ran (locks (rowlock w))"
  proof
    assume "Ref l \<in> ran (locks (rowlock w))"
    then obtain k where "locks (rowlock w) k = Some (Ref l)" by (auto simp: ran_def)
    then have "locks (snd ?g) k = Some (Ref l)" by (rule getLocker_keeps)
    with u' show False by (auto simp: ran_def)
  qed
  with assms have m: "heap w l = m0" by (simp add: pristine_def)
  have "fst ?g \<noteq> Inr l"
  proof
    assume e: "fst ?g = Inr l"
    from getLocker_returns_bound [of "rowlock w" "snd c" "row_of (fst c)"] obtain v where
      v: "locks (snd ?g) (row_of (fst c)) = Some v" and a: "fst ?g = assertLocker v" by blast
    from a e have "v = Ref l" by (cases v) (simp_all add: assertLocker_def)
    with v u' show False by (auto simp: ran_def)
  qed
  then have "heap (snd (exec impl w c)) l = heap w l" by (rule exec_heap)
  with m show "heap (snd (exec impl w c)) l = m0" by simp
qed

lemma exec_settled: "settled m0 w \<Longrightarrow> settled m0 (snd (exec impl w c))"
  by (simp add: settled_def exec_rowlock getLocker_apart getLocker_no_nil exec_pristine)

lemma run_settled: "settled m0 w \<Longrightarrow> settled m0 (run impl w cs)"
  by (induction cs arbitrary: w) (simp_all add: exec_settled)

lemma new_settled: "inj f \<Longrightarrow> \<forall>n. f n \<noteq> Nil \<Longrightarrow>
  settled m0 \<lparr>rowlock = NewRowLock f, heap = (\<lambda>l. m0)\<rparr>"
  by (simp add: settled_def pristine_def NewRowLock_apart NewRowLock_no_nil)
     (simp add: NewRowLock_def)

text \<open>
  The Locker a call resolves: it is the one bound to the row after the call; it was
  bound to the row before, or the row was unbound and the Locker is in the state it was
  created in.
\<close>

lemma resolved_state:
  assumes s: "settled m0 w"
  shows "\<exists>l. fst (getLocker (rowlock w) ch r) = Inr l
      \<and> locks (snd (getLocker (rowlock w) ch r)) r = Some (Ref l)
      \<and> (locks (rowlock w) r = None \<longrightarrow> heap w l = m0)
      \<and> (\<forall>v. locks (rowlock w) r = Some v \<longrightarrow> v = Ref l)"
proof -
  let ?p = "lockerPool (rowlock w)"
  let ?c = "fst (Get ?p (pick ch))"
  from s have f: "inj (New ?p)" and n: "\<forall>n. New ?p n \<noteq> Nil"
    and a: "instances_apart (rowlock w)" and z: "no_nil (rowlock w)" and p: "pristine m0 w"
    by (simp_all add: settled_def)
  show ?thesis
  proof (cases "locks (rowlock w) r")
    case None
    from a have d: "distinct (idle ?p)"
      and i: "set (idle ?p) \<inter> ran (locks (rowlock w)) = {}"
      and b: "ran (locks (rowlock w)) \<union> set (idle ?p) \<subseteq> New ?p ` {..<calls ?p}"
      by (simp_all add: instances_apart_def)
    from Get_apart(1) [OF f d i b, of "pick ch"] have 1: "?c \<notin> ran (locks (rowlock w))" .
    from z have "Nil \<notin> set (idle ?p)" by (simp add: no_nil_def)
    with n have "?c \<noteq> Nil" by (intro Get_no_nil(1))
    then obtain l where l: "?c = Ref l" by (cases ?c) simp_all
    with 1 p have "heap w l = m0" by (simp add: pristine_def)
    with None l show ?thesis
      by (simp add: getLocker_unbound assertLocker_def)
  next
    case (Some v)
    with z have "v \<noteq> Nil" by (auto simp: no_nil_def ran_def)
    then obtain l where "v = Ref l" by (cases v) simp_all
    with Some show ?thesis
      by (simp add: getLocker_bound assertLocker_def)
  qed
qed

lemma same_dom_None: "dom m = dom m' \<Longrightarrow> m k = None \<Longrightarrow> m' k = None"
proof -
  assume d: "dom m = dom m'" and n: "m k = None"
  from n have "k \<notin> dom m" by (simp add: domIff)
  with d have "k \<notin> dom m'" by simp
  then show ?thesis by (simp add: domIff)
qed

lemma same_dom_Some: "dom m = dom m' \<Longrightarrow> m k = Some v \<Longrightarrow> \<exists>v'. m' k = Some v'"
proof -
  assume d: "dom m = dom m'" and n: "m k = Some v"
  from n have "k \<in> dom m" by (simp add: domIff)
  with d have "k \<in> dom m'" by simp
  then show ?thesis by (simp add: domIff)
qed

lemma only_one_row:
  assumes "inj_on m (dom m)" and "m k = Some v" and "m k' = Some v'" and "k \<noteq> k'"
  shows "v \<noteq> v'"
proof
  assume "v = v'"
  with assms(2,3) have "m k = m k'" by simp
  moreover from assms(2) have "k \<in> dom m" by (simp add: domIff)
  moreover from assms(3) have "k' \<in> dom m" by (simp add: domIff)
  ultimately have "k = k'" by (rule inj_onD [OF assms(1)])
  with assms(4) show False by simp
qed

lemma exec_alike:
  assumes s: "settled m0 w" and s': "settled m0 w'" and r: "alike w w'"
  shows "fst (exec impl w (a, ch)) = fst (exec impl w' (a, ch'))"
    and "alike (snd (exec impl w (a, ch))) (snd (exec impl w' (a, ch')))"
proof -
  let ?r = "row_of a"
  let ?g = "getLocker (rowlock w) ch ?r" and ?g' = "getLocker (rowlock w') ch' ?r"
  let ?m = "method_of impl a"
  from resolved_state [OF s, of ch ?r] obtain l where
    "fst ?g = Inr l \<and> locks (snd ?g) ?r = Some (Ref l)
     \<and> (locks (rowlock w) ?r = None \<longrightarrow> heap w l = m0)
     \<and> (\<forall>v. locks (rowlock w) ?r = Some v \<longrightarrow> v = Ref l)" ..
  then have l: "fst ?g = Inr l" and b: "locks (snd ?g) ?r = Some (Ref l)"
    and n: "locks (rowlock w) ?r = None \<longrightarrow> heap w l = m0"
    and o: "\<forall>v. locks (rowlock w) ?r = Some v \<longrightarrow> v = Ref l"
    by simp_all
  from resolved_state [OF s', of ch' ?r] obtain l' where
    "fst ?g' = Inr l' \<and> locks (snd ?g') ?r = Some (Ref l')
     \<and> (locks (rowlock w') ?r = None \<longrightarrow> heap w' l' = m0)
     \<and> (\<forall>v. locks (rowlock w') ?r = Some v \<longrightarrow> v = Ref l')" ..
  then have l': "fst ?g' = Inr l'" and b': "locks (snd ?g') ?r = Some (Ref l')"
    and n': "locks (rowlock w') ?r = None \<longrightarrow> heap w' l' = m0"
    and o': "\<forall>v. locks (rowlock w') ?r = Some v \<longrightarrow> v = Ref l'"
    by simp_all
  from r have dm: "dom (locks (rowlock w)) = dom (locks (rowlock w'))"
    by (simp add: alike_def)
  from r have hp: "locks (rowlock w) k = Some (Ref x) \<Longrightarrow>
        locks (rowlock w') k = Some (Ref x') \<Longrightarrow> heap w x = heap w' x'" for k x x'
    unfolding alike_def by blast
  have e: "heap w l = heap w' l'"
  proof (cases "locks (rowlock w) ?r")
    case None
    with dm have "locks (rowlock w') ?r = None" by (rule same_dom_None)
    with None n n' show ?thesis by simp
  next
    case (Some v)
    from same_dom_Some [OF dm Some] obtain v' where v': "locks (rowlock w') ?r = Some v'" ..
    from Some o have "locks (rowlock w) ?r = Some (Ref l)" by simp
    moreover from v' o' have "locks (rowlock w') ?r = Some (Ref l')" by simp
    ultimately show ?thesis by (rule hp)
  qed
  have x: "fst (exec impl w (a, ch)) = fst (invoke ?m (heap w) l)"
    and xh: "heap (snd (exec impl w (a, ch))) = snd (invoke ?m (heap w) l)"
    by (simp_all add: exec_resolved [OF l])
  have x': "fst (exec impl w' (a, ch')) = fst (invoke ?m (heap w') l')"
    and xh': "heap (snd (exec impl w' (a, ch'))) = snd (invoke ?m (heap w') l')"
    by (simp_all add: exec_resolved [OF l'])
  from invoke_same [of "heap w" l "heap w'" l' ?m, OF e] have
    i1: "fst (invoke ?m (heap w) l) = fst (invoke ?m (heap w') l')"
    and i2: "snd (invoke ?m (heap w) l) l = snd (invoke ?m (heap w') l') l'" by blast+
  from i1 show "fst (exec impl w (a, ch)) = fst (exec impl w' (a, ch'))"
    by (simp only: x x')
  from s have "instances_apart (snd ?g)" by (simp add: settled_def getLocker_apart)
  then have j: "inj_on (locks (snd ?g)) (dom (locks (snd ?g)))"
    by (simp add: instances_apart_def)
  from s' have "instances_apart (snd ?g')" by (simp add: settled_def getLocker_apart)
  then have j': "inj_on (locks (snd ?g')) (dom (locks (snd ?g')))"
    by (simp add: instances_apart_def)
  have h: "heap (snd (exec impl w (a, ch))) y = heap (snd (exec impl w' (a, ch'))) y'"
    if k: "locks (snd ?g) k = Some (Ref y)" and k': "locks (snd ?g') k = Some (Ref y')"
    for k y y'
  proof (cases "k = ?r")
    case True
    with k k' b b' have "y = l" "y' = l'" by simp_all
    with i2 show ?thesis by (simp only: xh xh')
  next
    case False
    from only_one_row [OF j k b False] have y: "y \<noteq> l" by simp
    from only_one_row [OF j' k' b' False] have y': "y' \<noteq> l'" by simp
    from False k have "locks (rowlock w) k = Some (Ref y)" by (simp add: getLocker_other)
    moreover from False k' have "locks (rowlock w') k = Some (Ref y')" by (simp add: getLocker_other)
    ultimately have "heap w y = heap w' y'" by (rule hp)
    with y y' show ?thesis
      by (simp add: xh xh' invoke_other)
  qed
  from dm have d: "dom (locks (snd ?g)) = dom (locks (snd ?g'))"
    by (simp add: getLocker_dom)
  have rl: "rowlock (snd (exec impl w (a, ch))) = snd ?g"
    "rowlock (snd (exec impl w' (a, ch'))) = snd ?g'"
    by (simp_all add: exec_rowlock)
  show "alike (snd (exec impl w (a, ch))) (snd (exec impl w' (a, ch')))"
    unfolding alike_def rl
  proof (intro conjI allI impI)
    show "dom (locks (snd ?g)) = dom (locks (snd ?g'))" by (rule d)
  next
    fix k y y'
    assume "locks (snd ?g) k = Some (Ref y) \<and> locks (snd ?g') k = Some (Ref y')"
    then show "heap (snd (exec impl w (a, ch))) y = heap (snd (exec impl w' (a, ch'))) y'"
      using h by blast
  qed
qed

lemma outcomes_alike:
  assumes "length cs = length cs'" and "map fst cs = map fst cs'"
    and "settled m0 w" and "settled m0 w'" and "alike w w'"
  shows "outcomes impl w cs = outcomes impl w' cs'"
  using assms
proof (induction cs cs' arbitrary: w w' rule: list_induct2)
  case Nil
  then show ?case by simp
next
  case (Cons c cs c' cs')
  obtain a ch where c: "c = (a, ch)" by (cases c)
  with Cons.prems(1) obtain ch' where c': "c' = (a, ch')" by (cases c') simp
  note e = exec_alike [OF Cons.prems(2,3,4), of impl a ch ch']
  from Cons.prems have "outcomes impl (snd (exec impl w c)) cs
      = outcomes impl (snd (exec impl w' c')) cs'"
    using e(2) c c' by (intro Cons.IH) (simp_all add: exec_settled)
  with e(1) c c' show ?case by simp
qed

lemma resolved_Inr:
  assumes "\<forall>n. f n \<noteq> Nil" and "i < length cs"
  shows "\<exists>l. resolved impl \<lparr>rowlock = NewRowLock f, heap = h\<rparr> cs ! i = Inr l"
proof -
  let ?w = "\<lparr>rowlock = NewRowLock f, heap = h\<rparr>"
  from resolved_final [OF assms(2), of impl ?w] obtain v where
    v: "locks (rowlock (run impl ?w cs)) (row_of (fst (cs ! i))) = Some v"
    and r: "resolved impl ?w cs ! i = assertLocker v" by blast
  from reached_no_nil [OF assms(1), of impl h cs] v have "v \<noteq> Nil"
    by (auto simp: no_nil_def ran_def)
  then obtain l where "v = Ref l" by (cases v) simp_all
  with r show ?thesis by (simp add: assertLocker_def)
qed

text \<open>
  Which instance is bound to a row does depend on the pool, so the behaviour is not
  identical (C4 as it is worded): after Lock(1), Unlock(1), Lock(2) on
  \<^verbatim>\<open>NewRowLock(MutexNewLocker)\<close>, row 2 is bound to the third instance made when the
  pool never recycles, and to the second one, released by Unlock(1), when it recycles.
\<close>

theorem pool_changes_instances_counterexample:
  "map fst [(LockCall (1::nat), never_recycles), (UnlockCall (1::nat), never_recycles),
            (LockCall (2::nat), never_recycles)]
     = map fst [(LockCall (1::nat), recycles), (UnlockCall (1::nat), recycles), (LockCall (2::nat), recycles)]
   \<and> locks (rowlock (run Mutex mutex_world
        [(LockCall (1::nat), never_recycles), (UnlockCall (1::nat), never_recycles),
         (LockCall (2::nat), never_recycles)])) 2 = Some (Ref 2)
   \<and> locks (rowlock (run Mutex mutex_world
        [(LockCall (1::nat), recycles), (UnlockCall (1::nat), recycles), (LockCall (2::nat), recycles)])) 2
       = Some (Ref 1)
   \<and> resolved Mutex mutex_world
        [(LockCall (1::nat), never_recycles), (UnlockCall (1::nat), never_recycles),
         (LockCall (2::nat), never_recycles)] ! 2 = Inr 2
   \<and> resolved Mutex mutex_world
        [(LockCall (1::nat), recycles), (UnlockCall (1::nat), recycles), (LockCall (2::nat), recycles)] ! 2 = Inr 1"
  by (simp add: concrete_run)

text \<open>
  C4, as the source has it. What does not depend on the pool, for a factory that returns
  a distinct non-nil instance at every call, all created in the same state: which keys
  are bound after each call, which calls resolve the same Locker as which (those that
  name the same row), that every call resolves a Locker, and how every call ends.
\<close>

theorem pool_transparency:
  fixes cs cs' :: "('k call \<times> choice) list" and m0 :: 'm
  assumes f: "inj f" and n: "\<forall>n. f n \<noteq> Nil" and c: "map fst cs = map fst cs'"
  shows "(\<forall>n. dom (locks (rowlock (run impl \<lparr>rowlock = NewRowLock f, heap = (\<lambda>l. m0)\<rparr> (take n cs))))
            = dom (locks (rowlock (run impl \<lparr>rowlock = NewRowLock f, heap = (\<lambda>l. m0)\<rparr> (take n cs')))))
       \<and> (\<forall>i<length cs. \<forall>j<length cs.
            (resolved impl \<lparr>rowlock = NewRowLock f, heap = (\<lambda>l. m0)\<rparr> cs ! i
               = resolved impl \<lparr>rowlock = NewRowLock f, heap = (\<lambda>l. m0)\<rparr> cs ! j)
            = (resolved impl \<lparr>rowlock = NewRowLock f, heap = (\<lambda>l. m0)\<rparr> cs' ! i
               = resolved impl \<lparr>rowlock = NewRowLock f, heap = (\<lambda>l. m0)\<rparr> cs' ! j))
       \<and> (\<forall>i<length cs. \<exists>l l'.
            resolved impl \<lparr>rowlock = NewRowLock f, heap = (\<lambda>l. m0)\<rparr> cs ! i = Inr l
            \<and> resolved impl \<lparr>rowlock = NewRowLock f, heap = (\<lambda>l. m0)\<rparr> cs' ! i = Inr l')
       \<and> outcomes impl \<lparr>rowlock = NewRowLock f, heap = (\<lambda>l. m0)\<rparr> cs
            = outcomes impl \<lparr>rowlock = NewRowLock f, heap = (\<lambda>l. m0)\<rparr> cs'"
proof (intro conjI allI impI)
  let ?w = "\<lparr>rowlock = NewRowLock f, heap = (\<lambda>l. m0)\<rparr> :: ('k, 'm) world"
  from c have len: "length cs = length cs'"
    by (rule map_eq_imp_length_eq)
  show "dom (locks (rowlock (run impl ?w (take n cs))))
      = dom (locks (rowlock (run impl ?w (take n cs'))))" for n
    by (simp only: run_dom rows_of_same_calls [OF c])
  show "(resolved impl ?w cs ! i = resolved impl ?w cs ! j)
      = (resolved impl ?w cs' ! i = resolved impl ?w cs' ! j)"
    if i: "i < length cs" and j: "j < length cs" for i j
  proof -
    from i j len have i': "i < length cs'" and j': "j < length cs'" by simp_all
    have "(resolved impl ?w cs ! i = resolved impl ?w cs ! j)
        = (row_of (fst (cs ! i)) = row_of (fst (cs ! j)))"
      by (rule resolved_pattern [OF f i j])
    also have "\<dots> = (row_of (fst (cs' ! i)) = row_of (fst (cs' ! j)))"
      by (simp only: nth_same_call [OF c i] nth_same_call [OF c j])
    also have "\<dots> = (resolved impl ?w cs' ! i = resolved impl ?w cs' ! j)"
      by (rule resolved_pattern [OF f i' j', symmetric])
    finally show ?thesis .
  qed
  show "\<exists>l l'. resolved impl ?w cs ! i = Inr l \<and> resolved impl ?w cs' ! i = Inr l'"
    if i: "i < length cs" for i
  proof -
    from i len have i': "i < length cs'" by simp
    from resolved_Inr [OF n i, of impl "\<lambda>l. m0"] obtain l where
      "resolved impl ?w cs ! i = Inr l" ..
    moreover from resolved_Inr [OF n i', of impl "\<lambda>l. m0"] obtain l' where
      "resolved impl ?w cs' ! i = Inr l'" ..
    ultimately show ?thesis by (intro exI conjI)
  qed
  have "settled m0 ?w" using f n by (rule new_settled)
  moreover have "alike ?w ?w" by (simp add: alike_def NewRowLock_def)
  ultimately show "outcomes impl ?w cs = outcomes impl ?w cs'"
    using len c by (intro outcomes_alike [where ?m0.0 = m0])
qed

theorem pool_transparency_witness:
  "inj MutexNewLocker \<and> (\<forall>n. MutexNewLocker n \<noteq> Nil)
   \<and> map fst [(LockCall (1::nat), never_recycles), (UnlockCall (1::nat), never_recycles),
               (LockCall (2::nat), never_recycles)]
        = map fst [(LockCall (1::nat), recycles), (UnlockCall (1::nat), recycles), (LockCall (2::nat), recycles)]
   \<and> outcomes Mutex \<lparr>rowlock = NewRowLock MutexNewLocker, heap = (\<lambda>l. False)\<rparr>
        [(LockCall (1::nat), never_recycles), (UnlockCall (1::nat), never_recycles),
         (LockCall (2::nat), never_recycles)]
      = outcomes Mutex \<lparr>rowlock = NewRowLock MutexNewLocker, heap = (\<lambda>l. False)\<rparr>
        [(LockCall (1::nat), recycles), (UnlockCall (1::nat), recycles), (LockCall (2::nat), recycles)]"
proof -
  have a: "inj MutexNewLocker"
    by (simp add: inj_def MutexNewLocker_def)
  have b: "\<forall>n. MutexNewLocker n \<noteq> Nil"
    by (simp add: MutexNewLocker_def)
  have c: "map fst [(LockCall (1::nat), never_recycles), (UnlockCall (1::nat), never_recycles),
               (LockCall (2::nat), never_recycles)]
        = map fst [(LockCall (1::nat), recycles), (UnlockCall (1::nat), recycles), (LockCall (2::nat), recycles)]"
    by simp
  note t = pool_transparency [OF a b c, of Mutex False]
  from a b c t [THEN conjunct2, THEN conjunct2, THEN conjunct2] show ?thesis
    by (intro conjI)
qed

section \<open>Interleaved calls\<close>

subsection \<open>What each statement does\<close>

lemma advance_At58:
  "pcs s t = At58 c \<Longrightarrow>
   advance s t ch =
     s\<lparr>shared := \<lparr>locks = locks (shared s), lockerPool = snd (Get (lockerPool (shared s)) (pick ch))\<rparr>,
       pcs := (pcs s)(t := At59 c (fst (Get (lockerPool (shared s)) (pick ch))))\<rparr>"
  by (simp add: advance_def split: prod.splits)

lemma advance_At59_unbound:
  "pcs s t = At59 c x \<Longrightarrow> locks (shared s) (row_of c) = None \<Longrightarrow>
   advance s t ch =
     s\<lparr>shared := \<lparr>locks = (locks (shared s))(row_of c \<mapsto> x), lockerPool = lockerPool (shared s)\<rparr>,
       pcs := (pcs s)(t := At60 c x x False)\<rparr>"
  by (simp add: advance_def LoadOrStore_def)

lemma advance_At59_bound:
  "pcs s t = At59 c x \<Longrightarrow> locks (shared s) (row_of c) = Some v \<Longrightarrow>
   advance s t ch = s\<lparr>shared := shared s, pcs := (pcs s)(t := At60 c x v True)\<rparr>"
  by (simp add: advance_def LoadOrStore_def)

lemma advance_At60_loaded:
  "pcs s t = At60 c x v True \<Longrightarrow>
   advance s t ch =
     s\<lparr>shared := \<lparr>locks = locks (shared s),
                   lockerPool = Put (lockerPool (shared s)) (keep ch) x\<rparr>,
       pcs := (pcs s)(t := At63 c v)\<rparr>"
  by (simp add: advance_def)

lemma advance_At60_stored:
  "pcs s t = At60 c x v False \<Longrightarrow>
   advance s t ch = s\<lparr>shared := shared s, pcs := (pcs s)(t := At63 c v)\<rparr>"
  by (simp add: advance_def)

lemma advance_At63: "pcs s t = At63 c v \<Longrightarrow> advance s t ch = finish s t c v"
  by (simp add: advance_def)

lemma advance_rest:
  "pcs s t = Idle \<or> (\<exists>e. pcs s t = Faulted e) \<Longrightarrow> advance s t ch = s"
  by (auto simp: advance_def)

lemma finish_shared [simp]: "shared (finish s t c v) = shared s"
  by (simp add: finish_def split: iface.splits call.splits)

lemma finish_owned: "pcs s t = At63 c v \<Longrightarrow> owned (pcs (finish s t c v) u) = owned (pcs s u)"
  by (simp add: finish_def split: iface.splits call.splits)

lemma bind_keeps_inj:
  assumes i: "inj_on m (dom m)" and v: "v \<notin> ran m"
  shows "inj_on (m(k \<mapsto> v)) (dom (m(k \<mapsto> v)))"
proof (rule inj_onI)
  fix a b
  assume a: "a \<in> dom (m(k \<mapsto> v))" and b: "b \<in> dom (m(k \<mapsto> v))"
    and e: "(m(k \<mapsto> v)) a = (m(k \<mapsto> v)) b"
  show "a = b"
  proof (cases "a = k"; cases "b = k")
    assume "a = k" "b \<noteq> k"
    with e have "m b = Some v" by simp
    with v show ?thesis by (simp add: ran_def)
  next
    assume "a \<noteq> k" "b = k"
    with e have "m a = Some v" by simp
    with v show ?thesis by (simp add: ran_def)
  next
    assume n: "a \<noteq> k" "b \<noteq> k"
    with e have "m a = m b" by simp
    moreover from n a b have "a \<in> dom m" "b \<in> dom m" by simp_all
    ultimately show ?thesis by (rule inj_onD [OF i])
  qed simp
qed

lemma accountedI:
  assumes "instances_apart (shared s)"
    and "\<And>t x. owned (pcs s t) = Some x \<Longrightarrow>
           x \<notin> ran (locks (shared s)) \<and> x \<notin> set (idle (lockerPool (shared s)))
           \<and> x \<in> New (lockerPool (shared s)) ` {..<calls (lockerPool (shared s))}"
    and "\<And>t t' x. owned (pcs s t) = Some x \<Longrightarrow> owned (pcs s t') = Some x \<Longrightarrow> t = t'"
  shows "accounted s"
  unfolding accounted_def
proof (intro conjI)
  show "instances_apart (shared s)" by fact
  show "\<forall>t x. owned (pcs s t) = Some x \<longrightarrow>
           x \<notin> ran (locks (shared s)) \<and> x \<notin> set (idle (lockerPool (shared s)))
           \<and> x \<in> New (lockerPool (shared s)) ` {..<calls (lockerPool (shared s))}"
    by (intro allI impI, rule assms(2), assumption)
  show "\<forall>t t' x. owned (pcs s t) = Some x \<and> owned (pcs s t') = Some x \<longrightarrow> t = t'"
    by (intro allI impI, elim conjE, erule (1) assms(3))
qed

lemma accounted_shared: "accounted s \<Longrightarrow> instances_apart (shared s)"
  by (simp add: accounted_def)

lemma accounted_owned:
  assumes "accounted s" and "owned (pcs s t) = Some x"
  shows "x \<notin> ran (locks (shared s))" and "x \<notin> set (idle (lockerPool (shared s)))"
    and "x \<in> New (lockerPool (shared s)) ` {..<calls (lockerPool (shared s))}"
proof -
  from assms(1) have "\<forall>t x. owned (pcs s t) = Some x \<longrightarrow>
           x \<notin> ran (locks (shared s)) \<and> x \<notin> set (idle (lockerPool (shared s)))
           \<and> x \<in> New (lockerPool (shared s)) ` {..<calls (lockerPool (shared s))}"
    by (simp add: accounted_def)
  then have "owned (pcs s t) = Some x \<longrightarrow>
           x \<notin> ran (locks (shared s)) \<and> x \<notin> set (idle (lockerPool (shared s)))
           \<and> x \<in> New (lockerPool (shared s)) ` {..<calls (lockerPool (shared s))}"
    by (elim allE)
  with assms(2) show "x \<notin> ran (locks (shared s))"
    and "x \<notin> set (idle (lockerPool (shared s)))"
    and "x \<in> New (lockerPool (shared s)) ` {..<calls (lockerPool (shared s))}"
    by simp_all
qed

lemma accounted_one_owner:
  assumes "accounted s" and "owned (pcs s t) = Some x" and "owned (pcs s t') = Some x"
  shows "t = t'"
proof -
  from assms(1) have "\<forall>t t' x. owned (pcs s t) = Some x \<and> owned (pcs s t') = Some x \<longrightarrow> t = t'"
    by (simp add: accounted_def)
  then have "owned (pcs s t) = Some x \<and> owned (pcs s t') = Some x \<longrightarrow> t = t'"
    by (elim allE)
  with assms(2,3) show ?thesis by simp
qed

text \<open>A thread that gives up its candidate, or never had one, while nothing shared changes.\<close>

lemma accounted_pcs_None:
  assumes a: "accounted s" and o: "owned p = None"
  shows "accounted (s\<lparr>pcs := (pcs s)(t := p)\<rparr>)"
proof (rule accountedI)
  let ?s = "s\<lparr>pcs := (pcs s)(t := p)\<rparr>"
  have sub: "owned (pcs ?s u) = Some x \<Longrightarrow> owned (pcs s u) = Some x" for u x
    using o by (cases "u = t") simp_all
  from a show "instances_apart (shared ?s)"
    by (simp add: accounted_shared)
  show "x \<notin> ran (locks (shared ?s)) \<and> x \<notin> set (idle (lockerPool (shared ?s)))
      \<and> x \<in> New (lockerPool (shared ?s)) ` {..<calls (lockerPool (shared ?s))}"
    if "owned (pcs ?s u) = Some x" for u x
    using accounted_owned [OF a sub [OF that]] by simp
  show "u = u'" if "owned (pcs ?s u) = Some x" and "owned (pcs ?s u') = Some x" for u u' x
    using accounted_one_owner [OF a sub [OF that(1)] sub [OF that(2)]] .
qed

lemma accounted_pcs:
  assumes a: "accounted s" and o: "owned p = owned (pcs s t)"
  shows "accounted (s\<lparr>pcs := (pcs s)(t := p)\<rparr>)"
proof (rule accountedI)
  let ?s = "s\<lparr>pcs := (pcs s)(t := p)\<rparr>"
  have sub: "owned (pcs ?s u) = Some x \<Longrightarrow> owned (pcs s u) = Some x" for u x
    using o by (cases "u = t") simp_all
  from a show "instances_apart (shared ?s)"
    by (simp add: accounted_shared)
  show "x \<notin> ran (locks (shared ?s)) \<and> x \<notin> set (idle (lockerPool (shared ?s)))
      \<and> x \<in> New (lockerPool (shared ?s)) ` {..<calls (lockerPool (shared ?s))}"
    if "owned (pcs ?s u) = Some x" for u x
    using accounted_owned [OF a sub [OF that]] by simp
  show "u = u'" if "owned (pcs ?s u) = Some x" and "owned (pcs ?s u') = Some x" for u u' x
    using accounted_one_owner [OF a sub [OF that(1)] sub [OF that(2)]] .
qed

lemma accounted_Get:
  assumes a: "accounted s" and f: "inj (New (lockerPool (shared s)))"
    and p: "pcs s t = At58 c"
  shows "accounted (advance s t ch)"
proof -
  let ?p = "lockerPool (shared s)"
  let ?x = "fst (Get ?p (pick ch))" and ?q = "snd (Get ?p (pick ch))"
  let ?R = "ran (locks (shared s)) \<union> {x. \<exists>u. owned (pcs s u) = Some x}"
  let ?s = "s\<lparr>shared := \<lparr>locks = locks (shared s), lockerPool = ?q\<rparr>,
              pcs := (pcs s)(t := At59 c ?x)\<rparr>"
  from a have ia: "instances_apart (shared s)"
    by (rule accounted_shared)
  from ia have d: "distinct (idle ?p)"
    and i: "set (idle ?p) \<inter> ran (locks (shared s)) = {}"
    and b: "ran (locks (shared s)) \<union> set (idle ?p) \<subseteq> New ?p ` {..<calls ?p}"
    and j: "inj_on (locks (shared s)) (dom (locks (shared s)))"
    by (simp_all add: instances_apart_def)
  have i': "set (idle ?p) \<inter> ?R = {}"
    using i accounted_owned(2) [OF a] by blast
  have b': "?R \<union> set (idle ?p) \<subseteq> New ?p ` {..<calls ?p}"
    using b accounted_owned(3) [OF a] by blast
  note g = Get_apart [OF f d i' b', of "pick ch"]
  have own: "owned (pcs ?s u) = Some y \<Longrightarrow> (u = t \<and> y = ?x) \<or> (u \<noteq> t \<and> owned (pcs s u) = Some y)"
    for u y
    by (cases "u = t") simp_all
  have "accounted ?s"
  proof (rule accountedI)
    from j g(3,4,5) show "instances_apart (shared ?s)"
      by (simp add: instances_apart_def) blast
    show "y \<notin> ran (locks (shared ?s)) \<and> y \<notin> set (idle (lockerPool (shared ?s)))
        \<and> y \<in> New (lockerPool (shared ?s)) ` {..<calls (lockerPool (shared ?s))}"
      if "owned (pcs ?s u) = Some y" for u y
    proof -
      from own [OF that] consider "y = ?x" | "owned (pcs s u) = Some y" by blast
      then show ?thesis
      proof cases
        case 1
        with g(1,2,5) show ?thesis by simp
      next
        case 2
        then have "y \<in> ?R" by blast
        with g(4,5) accounted_owned(1) [OF a 2] show ?thesis by simp blast
      qed
    qed
    show "u = u'" if "owned (pcs ?s u) = Some y" and "owned (pcs ?s u') = Some y" for u u' y
    proof -
      have "owned (pcs s v) \<noteq> Some ?x" for v
        using g(1) by blast
      with own [OF that(1)] own [OF that(2)] accounted_one_owner [OF a, of u y u']
      show ?thesis by blast
    qed
  qed
  with p show ?thesis by (simp add: advance_At58)
qed

lemma accounted_LoadOrStore:
  assumes a: "accounted s" and p: "pcs s t = At59 c x"
  shows "accounted (advance s t ch)"
proof (cases "locks (shared s) (row_of c)")
  case (Some v)
  have "accounted (s\<lparr>pcs := (pcs s)(t := At60 c x v True)\<rparr>)"
    using a
  proof (rule accounted_pcs)
    from p show "owned (At60 c x v True) = owned (pcs s t)" by simp
  qed
  with p Some show ?thesis by (simp add: advance_At59_bound)
next
  case None
  let ?p = "lockerPool (shared s)"
  let ?m = "(locks (shared s))(row_of c \<mapsto> x)"
  let ?s = "s\<lparr>shared := \<lparr>locks = ?m, lockerPool = ?p\<rparr>, pcs := (pcs s)(t := At60 c x x False)\<rparr>"
  from p have o: "owned (pcs s t) = Some x" by simp
  note x = accounted_owned [OF a o]
  from a have ia: "instances_apart (shared s)"
    by (rule accounted_shared)
  from ia have d: "distinct (idle ?p)"
    and i: "set (idle ?p) \<inter> ran (locks (shared s)) = {}"
    and b: "ran (locks (shared s)) \<union> set (idle ?p) \<subseteq> New ?p ` {..<calls ?p}"
    and j: "inj_on (locks (shared s)) (dom (locks (shared s)))"
    by (simp_all add: instances_apart_def)
  from None have r: "ran ?m = insert x (ran (locks (shared s)))" by simp
  have own: "owned (pcs ?s u) = Some y \<Longrightarrow> u \<noteq> t \<and> owned (pcs s u) = Some y" for u y
    by (cases "u = t") simp_all
  have "accounted ?s"
  proof (rule accountedI)
    from bind_keeps_inj [OF j x(1), of "row_of c"] d i b x(2,3) r
    show "instances_apart (shared ?s)"
      by (simp add: instances_apart_def)
    show "y \<notin> ran (locks (shared ?s)) \<and> y \<notin> set (idle (lockerPool (shared ?s)))
        \<and> y \<in> New (lockerPool (shared ?s)) ` {..<calls (lockerPool (shared ?s))}"
      if "owned (pcs ?s u) = Some y" for u y
    proof -
      from own [OF that] have u: "u \<noteq> t" and y: "owned (pcs s u) = Some y" by simp_all
      from accounted_one_owner [OF a y, of t] o u have "y \<noteq> x" by auto
      with accounted_owned [OF a y] r show ?thesis by simp
    qed
    show "u = u'" if "owned (pcs ?s u) = Some y" and "owned (pcs ?s u') = Some y" for u u' y
      using own [OF that(1)] own [OF that(2)] accounted_one_owner [OF a, of u y u'] by simp
  qed
  with p None show ?thesis by (simp add: advance_At59_unbound)
qed

lemma accounted_Put:
  assumes a: "accounted s" and p: "pcs s t = At60 c x v loaded"
  shows "accounted (advance s t ch)"
proof (cases loaded)
  case False
  have "accounted (s\<lparr>pcs := (pcs s)(t := At63 c v)\<rparr>)"
    using a by (rule accounted_pcs_None) simp
  with p False show ?thesis by (simp add: advance_At60_stored)
next
  case True
  let ?p = "lockerPool (shared s)"
  let ?q = "Put ?p (keep ch) x"
  let ?s = "s\<lparr>shared := \<lparr>locks = locks (shared s), lockerPool = ?q\<rparr>,
              pcs := (pcs s)(t := At63 c v)\<rparr>"
  from p True have o: "owned (pcs s t) = Some x" by simp
  note x = accounted_owned [OF a o]
  from a have ia: "instances_apart (shared s)"
    by (rule accounted_shared)
  from ia have d: "distinct (idle ?p)"
    and i: "set (idle ?p) \<inter> ran (locks (shared s)) = {}"
    and b: "ran (locks (shared s)) \<union> set (idle ?p) \<subseteq> New ?p ` {..<calls ?p}"
    and j: "inj_on (locks (shared s)) (dom (locks (shared s)))"
    by (simp_all add: instances_apart_def)
  have q: "idle ?q = idle ?p \<or> idle ?q = x # idle ?p" and qc: "calls ?q = calls ?p"
    by (simp_all add: Put_def)
  have own: "owned (pcs ?s u) = Some y \<Longrightarrow> u \<noteq> t \<and> owned (pcs s u) = Some y" for u y
    by (cases "u = t") simp_all
  have "accounted ?s"
  proof (rule accountedI)
    from q d i b j x show "instances_apart (shared ?s)"
      by (auto simp: instances_apart_def qc)
    show "y \<notin> ran (locks (shared ?s)) \<and> y \<notin> set (idle (lockerPool (shared ?s)))
        \<and> y \<in> New (lockerPool (shared ?s)) ` {..<calls (lockerPool (shared ?s))}"
      if "owned (pcs ?s u) = Some y" for u y
    proof -
      from own [OF that] have u: "u \<noteq> t" and y: "owned (pcs s u) = Some y" by simp_all
      from accounted_one_owner [OF a y, of t] o u have "y \<noteq> x" by auto
      with accounted_owned [OF a y] q show ?thesis by (auto simp: qc)
    qed
    show "u = u'" if "owned (pcs ?s u) = Some y" and "owned (pcs ?s u') = Some y" for u u' y
      using own [OF that(1)] own [OF that(2)] accounted_one_owner [OF a, of u y u'] by simp
  qed
  with p True show ?thesis by (simp add: advance_At60_loaded)
qed

lemma accounted_finish:
  assumes a: "accounted s" and p: "pcs s t = At63 c v"
  shows "accounted (finish s t c v)"
proof (rule accountedI)
  from a show "instances_apart (shared (finish s t c v))"
    by (simp add: accounted_shared)
  show "y \<notin> ran (locks (shared (finish s t c v)))
      \<and> y \<notin> set (idle (lockerPool (shared (finish s t c v))))
      \<and> y \<in> New (lockerPool (shared (finish s t c v)))
            ` {..<calls (lockerPool (shared (finish s t c v)))}"
    if "owned (pcs (finish s t c v) u) = Some y" for u y
    using accounted_owned [OF a, of u y] that by (simp add: finish_owned [OF p])
  show "u = u'"
    if "owned (pcs (finish s t c v) u) = Some y" and "owned (pcs (finish s t c v) u') = Some y"
    for u u' y
    using accounted_one_owner [OF a, of u y u'] that by (simp add: finish_owned [OF p])
qed

lemma step_New [simp]: "New (lockerPool (shared (step s e))) = New (lockerPool (shared s))"
proof (cases e)
  case (Begin t c)
  then show ?thesis by simp
next
  case (Advance t ch)
  show ?thesis
  proof (cases "pcs s t")
    case (At59 c x)
    then show ?thesis
      using Advance
      by (cases "locks (shared s) (row_of c)")
         (simp_all add: advance_At59_unbound advance_At59_bound)
  next
    case (At60 c x v loaded)
    then show ?thesis
      using Advance by (cases loaded) (simp_all add: advance_At60_loaded advance_At60_stored)
  qed (simp_all add: Advance advance_At58 advance_At63 advance_rest)
qed

lemma step_accounted:
  assumes a: "accounted s" and f: "inj (New (lockerPool (shared s)))"
  shows "accounted (step s e)"
proof (cases e)
  case (Begin t c)
  have "accounted (s\<lparr>pcs := (pcs s)(t := At58 c)\<rparr>)"
    using a by (rule accounted_pcs_None) simp
  with a Begin show ?thesis by simp
next
  case (Advance t ch)
  show ?thesis
  proof (cases "pcs s t")
    case Idle
    with a Advance show ?thesis by (simp add: advance_rest)
  next
    case (At58 c)
    with accounted_Get [OF a f this] Advance show ?thesis by simp
  next
    case (At59 c x)
    with accounted_LoadOrStore [OF a this] Advance show ?thesis by simp
  next
    case (At60 c x v loaded)
    with accounted_Put [OF a this] Advance show ?thesis by simp
  next
    case (At63 c v)
    with accounted_finish [OF a this] Advance show ?thesis by (simp add: advance_At63)
  next
    case (Faulted x)
    with a Advance show ?thesis by (simp add: advance_rest)
  qed
qed

lemma step_cases [case_names same enter get store found put skip finish]:
  obtains
    (same) "step s e = s"
  | (enter) t c where "e = Begin t c" and "pcs s t = Idle"
      and "step s e = s\<lparr>pcs := (pcs s)(t := At58 c)\<rparr>"
  | (get) t ch c where "e = Advance t ch" and "pcs s t = At58 c"
      and "step s e =
        s\<lparr>shared := \<lparr>locks = locks (shared s),
                      lockerPool = snd (Get (lockerPool (shared s)) (pick ch))\<rparr>,
          pcs := (pcs s)(t := At59 c (fst (Get (lockerPool (shared s)) (pick ch))))\<rparr>"
  | (store) t ch c x where "e = Advance t ch" and "pcs s t = At59 c x"
      and "locks (shared s) (row_of c) = None"
      and "step s e =
        s\<lparr>shared := \<lparr>locks = (locks (shared s))(row_of c \<mapsto> x),
                      lockerPool = lockerPool (shared s)\<rparr>,
          pcs := (pcs s)(t := At60 c x x False)\<rparr>"
  | (found) t ch c x v where "e = Advance t ch" and "pcs s t = At59 c x"
      and "locks (shared s) (row_of c) = Some v"
      and "step s e = s\<lparr>pcs := (pcs s)(t := At60 c x v True)\<rparr>"
  | (put) t ch c x v where "e = Advance t ch" and "pcs s t = At60 c x v True"
      and "step s e =
        s\<lparr>shared := \<lparr>locks = locks (shared s),
                      lockerPool = Put (lockerPool (shared s)) (keep ch) x\<rparr>,
          pcs := (pcs s)(t := At63 c v)\<rparr>"
  | (skip) t ch c x v where "e = Advance t ch" and "pcs s t = At60 c x v False"
      and "step s e = s\<lparr>pcs := (pcs s)(t := At63 c v)\<rparr>"
  | (finish) t ch c v where "e = Advance t ch" and "pcs s t = At63 c v"
      and "step s e = finish s t c v"
proof (cases e)
  case (Begin t c)
  show ?thesis
  proof (cases "pcs s t = Idle")
    case True
    with Begin show ?thesis by (intro enter [of t c]) simp_all
  next
    case False
    with Begin show ?thesis by (intro same) simp
  qed
next
  case (Advance t ch)
  show ?thesis
  proof (cases "pcs s t")
    case Idle
    with Advance show ?thesis by (intro same) (simp add: advance_rest)
  next
    case (At58 c)
    with Advance show ?thesis by (intro get [of t ch c]) (simp_all add: advance_At58)
  next
    case (At59 c x)
    show ?thesis
    proof (cases "locks (shared s) (row_of c)")
      case None
      with Advance At59 show ?thesis
        by (intro store [of t ch c x]) (simp_all add: advance_At59_unbound)
    next
      case (Some v)
      with Advance At59 show ?thesis
        by (intro found [of t ch c x v]) (simp_all add: advance_At59_bound)
    qed
  next
    case (At60 c x v loaded)
    show ?thesis
    proof (cases loaded)
      case True
      with Advance At60 show ?thesis
        by (intro put [of t ch c x v]) (simp_all add: advance_At60_loaded)
    next
      case False
      with Advance At60 show ?thesis
        by (intro skip [of t ch c x v]) (simp_all add: advance_At60_stored)
    qed
  next
    case (At63 c v)
    with Advance show ?thesis by (intro finish [of t ch c v]) (simp_all add: advance_At63)
  next
    case (Faulted x)
    with Advance show ?thesis by (intro same) (simp add: advance_rest)
  qed
qed

lemma finish_cases [case_names nil blocked acquire release fault return]:
  obtains
    (nil) "v = Nil" and "finish s t c v = s\<lparr>pcs := (pcs s)(t := Faulted TypeAssertion)\<rparr>"
  | (blocked) l r where "v = Ref l" and "c = LockCall r" and "mutexes s l"
      and "finish s t c v = s"
  | (acquire) l r where "v = Ref l" and "c = LockCall r" and "\<not> mutexes s l"
      and "finish s t c v =
        s\<lparr>mutexes := (mutexes s)(l := True), pcs := (pcs s)(t := Idle),
          holds := (holds s)(t := insert r (holds s t))\<rparr>"
  | (release) l r where "v = Ref l" and "c = UnlockCall r" and "mutexes s l"
      and "finish s t c v =
        s\<lparr>mutexes := (mutexes s)(l := False), pcs := (pcs s)(t := Idle),
          holds := (holds s)(t := holds s t - {r})\<rparr>"
  | (fault) l r where "v = Ref l" and "c = UnlockCall r" and "\<not> mutexes s l"
      and "finish s t c v = s\<lparr>pcs := (pcs s)(t := Faulted LockerFault)\<rparr>"
  | (return) l r where "v = Ref l" and "c = GetLockerCall r"
      and "finish s t c v = s\<lparr>pcs := (pcs s)(t := Idle)\<rparr>"
proof (cases v)
  case Nil
  then show ?thesis by (intro nil) (simp_all add: finish_def)
next
  case (Ref l)
  show ?thesis
  proof (cases c)
    case (LockCall r)
    with Ref show ?thesis
      by (cases "mutexes s l")
         (intro blocked [of l r], simp_all add: finish_def,
          intro acquire [of l r], simp_all add: finish_def)
  next
    case (UnlockCall r)
    with Ref show ?thesis
      by (cases "mutexes s l")
         (intro release [of l r], simp_all add: finish_def,
          intro fault [of l r], simp_all add: finish_def)
  next
    case (GetLockerCall r)
    with Ref show ?thesis by (intro return [of l r]) (simp_all add: finish_def)
  qed
qed

subsection \<open>The local Locker is the row's Locker\<close>

lemma agreed_At60: "agreed s \<Longrightarrow> pcs s t = At60 c x v b \<Longrightarrow> locks (shared s) (row_of c) = Some v"
  unfolding agreed_def by blast

lemma agreed_At63: "agreed s \<Longrightarrow> pcs s t = At63 c v \<Longrightarrow> locks (shared s) (row_of c) = Some v"
  unfolding agreed_def by blast

lemma agreed_update:
  assumes a: "agreed s"
    and g: "\<And>k v. locks (shared s) k = Some v \<Longrightarrow> locks sh k = Some v"
    and p60: "\<And>c x v b. p = At60 c x v b \<Longrightarrow> locks sh (row_of c) = Some v"
    and p63: "\<And>c v. p = At63 c v \<Longrightarrow> locks sh (row_of c) = Some v"
  shows "agreed (s\<lparr>shared := sh, pcs := (pcs s)(t := p)\<rparr>)"
  unfolding agreed_def
proof (intro conjI allI impI)
  fix u c x v b
  assume h: "pcs (s\<lparr>shared := sh, pcs := (pcs s)(t := p)\<rparr>) u = At60 c x v b"
  show "locks (shared (s\<lparr>shared := sh, pcs := (pcs s)(t := p)\<rparr>)) (row_of c) = Some v"
  proof (cases "u = t")
    case True
    with h have "p = At60 c x v b" by simp
    then show ?thesis by (simp add: p60)
  next
    case False
    with h have "pcs s u = At60 c x v b" by simp
    from g [OF agreed_At60 [OF a this]] show ?thesis by simp
  qed
next
  fix u c v
  assume h: "pcs (s\<lparr>shared := sh, pcs := (pcs s)(t := p)\<rparr>) u = At63 c v"
  show "locks (shared (s\<lparr>shared := sh, pcs := (pcs s)(t := p)\<rparr>)) (row_of c) = Some v"
  proof (cases "u = t")
    case True
    with h have "p = At63 c v" by simp
    then show ?thesis by (simp add: p63)
  next
    case False
    with h have "pcs s u = At63 c v" by simp
    from g [OF agreed_At63 [OF a this]] show ?thesis by simp
  qed
qed

lemma agreed_finish:
  assumes a: "agreed s"
  shows "agreed (finish s t c v)"
proof -
  have p: "pcs (finish s t c v) u = At60 c' x' v' b' \<Longrightarrow> pcs s u = At60 c' x' v' b'"
    and q: "pcs (finish s t c v) u = At63 c' v' \<Longrightarrow> pcs s u = At63 c' v'"
    for u c' x' v' b'
    by (cases rule: finish_cases [of v s t c]; cases "u = t"; simp)+
  show ?thesis
    unfolding agreed_def
  proof (intro conjI allI impI)
    fix u c' x' v' b'
    assume "pcs (finish s t c v) u = At60 c' x' v' b'"
    from agreed_At60 [OF a p [OF this]]
    show "locks (shared (finish s t c v)) (row_of c') = Some v'" by simp
  next
    fix u c' v'
    assume "pcs (finish s t c v) u = At63 c' v'"
    from agreed_At63 [OF a q [OF this]]
    show "locks (shared (finish s t c v)) (row_of c') = Some v'" by simp
  qed
qed

lemma step_agreed:
  assumes a: "agreed s"
  shows "agreed (step s e)"
proof (cases rule: step_cases [of s e])
  case same
  with a show ?thesis by simp
next
  case (enter t c)
  from agreed_update [OF a, of "shared s" "At58 c" t] enter(3) show ?thesis by simp
next
  case (get t ch c)
  from agreed_update [OF a,
      of "\<lparr>locks = locks (shared s), lockerPool = snd (Get (lockerPool (shared s)) (pick ch))\<rparr>"
         "At59 c (fst (Get (lockerPool (shared s)) (pick ch)))" t] get(3)
  show ?thesis by simp
next
  case (store t ch c x)
  have "locks (shared s) k = Some v \<Longrightarrow> ((locks (shared s))(row_of c \<mapsto> x)) k = Some v" for k v
    using store(3) by (cases "k = row_of c") simp_all
  from agreed_update [OF a,
      of "\<lparr>locks = (locks (shared s))(row_of c \<mapsto> x), lockerPool = lockerPool (shared s)\<rparr>"
         "At60 c x x False" t] this store(4)
  show ?thesis by simp
next
  case (found t ch c x v)
  from agreed_update [OF a, of "shared s" "At60 c x v True" t] found(3,4) show ?thesis by simp
next
  case (put t ch c x v)
  from agreed_update [OF a,
      of "\<lparr>locks = locks (shared s), lockerPool = Put (lockerPool (shared s)) (keep ch) x\<rparr>"
         "At63 c v" t] agreed_At60 [OF a put(2)] put(3)
  show ?thesis by simp
next
  case (skip t ch c x v)
  from agreed_update [OF a, of "shared s" "At63 c v" t] agreed_At60 [OF a skip(2)] skip(3)
  show ?thesis by simp
next
  case (finish t ch c v)
  with agreed_finish [OF a] show ?thesis by simp
qed

subsection \<open>No nil\<close>

lemma nonnil_At63: "nonnil s \<Longrightarrow> pcs s t = At63 c v \<Longrightarrow> v \<noteq> Nil"
proof -
  assume n: "nonnil s" and p: "pcs s t = At63 c v"
  from n have "Nil \<notin> locals (pcs s t)" by (simp add: nonnil_def)
  with p show ?thesis by auto
qed

lemma nonnil_locals: "nonnil s \<Longrightarrow> Nil \<notin> locals (pcs s t)"
  by (simp add: nonnil_def)

lemma nonnil_update:
  assumes n: "nonnil s" and h: "no_nil sh" and l: "Nil \<notin> locals p"
    and f: "p \<noteq> Faulted TypeAssertion"
  shows "nonnil (s\<lparr>shared := sh, pcs := (pcs s)(t := p)\<rparr>)"
  unfolding nonnil_def
proof (intro conjI allI)
  from h show "no_nil (shared (s\<lparr>shared := sh, pcs := (pcs s)(t := p)\<rparr>))" by simp
  show "Nil \<notin> locals (pcs (s\<lparr>shared := sh, pcs := (pcs s)(t := p)\<rparr>) u)" for u
    using l nonnil_locals [OF n, of u] by (cases "u = t") simp_all
  from n have "pcs s u \<noteq> Faulted TypeAssertion" for u by (simp add: nonnil_def)
  then show "pcs (s\<lparr>shared := sh, pcs := (pcs s)(t := p)\<rparr>) u \<noteq> Faulted TypeAssertion" for u
    using f by (cases "u = t") simp_all
qed

lemma nonnil_finish:
  assumes n: "nonnil s" and p: "pcs s t = At63 c v"
  shows "nonnil (finish s t c v)"
proof -
  from n have h: "no_nil (shared s)" by (simp add: nonnil_def)
  have i: "Nil \<notin> locals Idle" "Idle \<noteq> Faulted TypeAssertion"
    "Nil \<notin> locals (Faulted LockerFault)" "Faulted LockerFault \<noteq> Faulted TypeAssertion"
    by simp_all
  have k: "nonnil (s\<lparr>pcs := (pcs s)(t := q)\<rparr>)"
    if "Nil \<notin> locals q" and "q \<noteq> Faulted TypeAssertion" for q
    using nonnil_update [OF n h that, of t] by simp
  have m: "nonnil (s\<lparr>mutexes := ms, pcs := (pcs s)(t := Idle), holds := hs\<rparr>)" for ms hs
    using k [of Idle] by (simp add: nonnil_def)
  show ?thesis
  proof (cases rule: finish_cases [of v s t c])
    case nil
    with nonnil_At63 [OF n p] show ?thesis by simp
  next
    case (blocked l r)
    with n show ?thesis by simp
  next
    case (acquire l r)
    with m show ?thesis by simp
  next
    case (release l r)
    with m show ?thesis by simp
  next
    case (fault l r)
    with k [of "Faulted LockerFault"] show ?thesis by simp
  next
    case (return l r)
    with k [of Idle] show ?thesis by simp
  qed
qed

lemma step_nonnil:
  assumes n: "nonnil s" and f: "\<forall>n. New (lockerPool (shared s)) n \<noteq> Nil"
  shows "nonnil (step s e)"
proof -
  from n have h: "no_nil (shared s)" by (simp add: nonnil_def)
  then have hi: "Nil \<notin> set (idle (lockerPool (shared s)))"
    and hr: "Nil \<notin> ran (locks (shared s))"
    by (simp_all add: no_nil_def)
  show ?thesis
  proof (cases rule: step_cases [of s e])
    case same
    with n show ?thesis by simp
  next
    case (enter t c)
    from nonnil_update [OF n h, of "At58 c" t] enter(3) show ?thesis by simp
  next
    case (get t ch c)
    note g = Get_no_nil [OF f hi, of "pick ch"]
    from hr g(2) have "no_nil \<lparr>locks = locks (shared s),
        lockerPool = snd (Get (lockerPool (shared s)) (pick ch))\<rparr>"
      by (simp add: no_nil_def)
    from nonnil_update [OF n this, of "At59 c (fst (Get (lockerPool (shared s)) (pick ch)))" t]
      g(1) get(3)
    show ?thesis by simp
  next
    case (store t ch c x)
    from nonnil_locals [OF n, of t] store(2) have x: "x \<noteq> Nil" by auto
    from store(3) have "ran ((locks (shared s))(row_of c \<mapsto> x)) = insert x (ran (locks (shared s)))"
      by simp
    with hr hi x have "no_nil \<lparr>locks = (locks (shared s))(row_of c \<mapsto> x),
        lockerPool = lockerPool (shared s)\<rparr>"
      by (simp add: no_nil_def)
    from nonnil_update [OF n this, of "At60 c x x False" t] x store(4)
    show ?thesis by simp
  next
    case (found t ch c x v)
    from nonnil_locals [OF n, of t] found(2) have x: "x \<noteq> Nil" by auto
    from found(3) hr have v: "v \<noteq> Nil" by (auto simp: ran_def)
    from nonnil_update [OF n h, of "At60 c x v True" t] x v found(4)
    show ?thesis by simp
  next
    case (put t ch c x v)
    from nonnil_locals [OF n, of t] put(2) have x: "x \<noteq> Nil" and v: "v \<noteq> Nil" by auto
    from hr hi x have "no_nil \<lparr>locks = locks (shared s),
        lockerPool = Put (lockerPool (shared s)) (keep ch) x\<rparr>"
      by (simp add: no_nil_def Put_def)
    from nonnil_update [OF n this, of "At63 c v" t] v put(3)
    show ?thesis by simp
  next
    case (skip t ch c x v)
    from nonnil_locals [OF n, of t] skip(2) have v: "v \<noteq> Nil" by auto
    from nonnil_update [OF n h, of "At63 c v" t] v skip(3)
    show ?thesis by simp
  next
    case (finish t ch c v)
    with nonnil_finish [OF n finish(2)] show ?thesis by simp
  qed
qed

lemma start_accounted: "accounted (start f)"
  by (rule accountedI) (simp_all add: start_def NewRowLock_apart)

lemma start_nonnil: "nonnil (start f)"
  by (simp add: nonnil_def start_def NewRowLock_no_nil)

lemma steps_accounted:
  "inj (New (lockerPool (shared s))) \<Longrightarrow> accounted s \<Longrightarrow> accounted (steps s es)"
  by (induction es arbitrary: s) (simp_all add: step_accounted)

lemma steps_nonnil:
  "\<forall>n. New (lockerPool (shared s)) n \<noteq> Nil \<Longrightarrow> nonnil s \<Longrightarrow> nonnil (steps s es)"
  by (induction es arbitrary: s) (simp_all add: step_nonnil)

subsection \<open>Holders and mutexes\<close>

lemma exclusiveI:
  assumes "\<And>t r. r \<in> holds s t \<Longrightarrow> \<exists>l. locks (shared s) r = Some (Ref l) \<and> mutexes s l"
    and "\<And>l. mutexes s l \<Longrightarrow> \<exists>t r. r \<in> holds s t \<and> locks (shared s) r = Some (Ref l)"
    and "\<And>t t' r. r \<in> holds s t \<Longrightarrow> r \<in> holds s t' \<Longrightarrow> t = t'"
    and "\<And>t r. call_of (pcs s t) = Some (UnlockCall r) \<Longrightarrow> r \<in> holds s t"
    and "\<And>t e. pcs s t \<noteq> Faulted e"
  shows "exclusive s"
  unfolding exclusive_def
proof (intro conjI)
  show "\<forall>t r. r \<in> holds s t \<longrightarrow> (\<exists>l. locks (shared s) r = Some (Ref l) \<and> mutexes s l)"
    by (intro allI impI, rule assms(1), assumption)
  show "\<forall>l. mutexes s l \<longrightarrow> (\<exists>t r. r \<in> holds s t \<and> locks (shared s) r = Some (Ref l))"
    by (intro allI impI, rule assms(2), assumption)
  show "\<forall>t t' r. r \<in> holds s t \<and> r \<in> holds s t' \<longrightarrow> t = t'"
    by (intro allI impI, elim conjE, erule (1) assms(3))
  show "\<forall>t r. call_of (pcs s t) = Some (UnlockCall r) \<longrightarrow> r \<in> holds s t"
    by (intro allI impI, rule assms(4), assumption)
  show "\<forall>t e. pcs s t \<noteq> Faulted e"
    by (intro allI, rule assms(5))
qed

lemma excl_held:
  "exclusive s \<Longrightarrow> r \<in> holds s t \<Longrightarrow> \<exists>l. locks (shared s) r = Some (Ref l) \<and> mutexes s l"
  unfolding exclusive_def by blast

lemma excl_locked:
  "exclusive s \<Longrightarrow> mutexes s l \<Longrightarrow> \<exists>t r. r \<in> holds s t \<and> locks (shared s) r = Some (Ref l)"
  unfolding exclusive_def by blast

lemma excl_one: "exclusive s \<Longrightarrow> r \<in> holds s t \<Longrightarrow> r \<in> holds s t' \<Longrightarrow> t = t'"
  unfolding exclusive_def by blast

lemma excl_unlocking:
  "exclusive s \<Longrightarrow> call_of (pcs s t) = Some (UnlockCall r) \<Longrightarrow> r \<in> holds s t"
  unfolding exclusive_def by blast

lemma excl_alive: "exclusive s \<Longrightarrow> pcs s t \<noteq> Faulted e"
  unfolding exclusive_def by blast

text \<open>A statement of \<^verbatim>\<open>getLocker\<close>: the table grows, no mutex and no holder changes.\<close>

lemma exclusive_update:
  assumes x: "exclusive s"
    and g: "\<And>k v. locks (shared s) k = Some v \<Longrightarrow> locks sh k = Some v"
    and u: "\<And>r. call_of p = Some (UnlockCall r) \<Longrightarrow> r \<in> holds s t"
    and f: "\<And>e. p \<noteq> Faulted e"
  shows "exclusive (s\<lparr>shared := sh, pcs := (pcs s)(t := p)\<rparr>)"
proof (rule exclusiveI)
  let ?s = "s\<lparr>shared := sh, pcs := (pcs s)(t := p)\<rparr>"
  show "\<exists>l. locks (shared ?s) r = Some (Ref l) \<and> mutexes ?s l" if "r \<in> holds ?s w" for w r
  proof -
    from that have "r \<in> holds s w" by simp
    from excl_held [OF x this] obtain l where "locks (shared s) r = Some (Ref l)" "mutexes s l"
      by blast
    with g [of r "Ref l"] show ?thesis by simp
  qed
  show "\<exists>w r. r \<in> holds ?s w \<and> locks (shared ?s) r = Some (Ref l)" if "mutexes ?s l" for l
  proof -
    from that have "mutexes s l" by simp
    from excl_locked [OF x this] obtain w r where
      "r \<in> holds s w" "locks (shared s) r = Some (Ref l)" by blast
    with g [of r "Ref l"] have "r \<in> holds ?s w \<and> locks (shared ?s) r = Some (Ref l)" by simp
    then show ?thesis by blast
  qed
  show "w = w'" if "r \<in> holds ?s w" and "r \<in> holds ?s w'" for w w' r
    using excl_one [OF x, of r w w'] that by simp
  show "r \<in> holds ?s w" if "call_of (pcs ?s w) = Some (UnlockCall r)" for w r
  proof (cases "w = t")
    case True
    with that u [of r] show ?thesis by simp
  next
    case False
    with that excl_unlocking [OF x, of w r] show ?thesis by simp
  qed
  show "pcs ?s w \<noteq> Faulted e" for w e
    using f [of e] excl_alive [OF x, of w e] by (cases "w = t") simp_all
qed

lemma exclusive_acquire:
  assumes x: "exclusive s" and b: "locks (shared s) r = Some (Ref l)" and m: "\<not> mutexes s l"
  shows "exclusive (s\<lparr>mutexes := (mutexes s)(l := True), pcs := (pcs s)(t := Idle),
                      holds := (holds s)(t := insert r (holds s t))\<rparr>)"
proof (rule exclusiveI)
  let ?s = "s\<lparr>mutexes := (mutexes s)(l := True), pcs := (pcs s)(t := Idle),
              holds := (holds s)(t := insert r (holds s t))\<rparr>"
  have free: "r \<notin> holds s w" for w
  proof
    assume "r \<in> holds s w"
    from excl_held [OF x this] b m show False by auto
  qed
  have h: "k \<in> holds ?s w \<Longrightarrow> (w = t \<and> k = r) \<or> k \<in> holds s w" for k w
    by (cases "w = t") simp_all
  have h': "k \<in> holds s w \<Longrightarrow> k \<in> holds ?s w" for k w
    by (cases "w = t") simp_all
  show "\<exists>l'. locks (shared ?s) k = Some (Ref l') \<and> mutexes ?s l'" if "k \<in> holds ?s w" for w k
  proof -
    from h [OF that] consider "k = r" | "k \<in> holds s w" by blast
    then show ?thesis
    proof cases
      case 1
      with b show ?thesis by simp
    next
      case 2
      from excl_held [OF x this] obtain l' where
        "locks (shared s) k = Some (Ref l')" "mutexes s l'" by blast
      then show ?thesis by simp
    qed
  qed
  show "\<exists>w k. k \<in> holds ?s w \<and> locks (shared ?s) k = Some (Ref l')" if "mutexes ?s l'" for l'
  proof (cases "l' = l")
    case True
    with b have "r \<in> holds ?s t \<and> locks (shared ?s) r = Some (Ref l')" by simp
    then show ?thesis by blast
  next
    case False
    with that have "mutexes s l'" by simp
    from excl_locked [OF x this] obtain w k where
      k: "k \<in> holds s w" and "locks (shared s) k = Some (Ref l')" by blast
    with h' [OF k] have "k \<in> holds ?s w \<and> locks (shared ?s) k = Some (Ref l')" by simp
    then show ?thesis by blast
  qed
  show "w = w'" if "k \<in> holds ?s w" and "k \<in> holds ?s w'" for w w' k
  proof (cases "k = r")
    case True
    with h [OF that(1)] h [OF that(2)] free show ?thesis by blast
  next
    case False
    with h [OF that(1)] h [OF that(2)] have "k \<in> holds s w" "k \<in> holds s w'" by blast+
    then show ?thesis by (rule excl_one [OF x])
  qed
  show "k \<in> holds ?s w" if "call_of (pcs ?s w) = Some (UnlockCall k)" for w k
  proof (cases "w = t")
    case True
    with that show ?thesis by simp
  next
    case False
    with that excl_unlocking [OF x, of w k] show ?thesis by simp
  qed
  show "pcs ?s w \<noteq> Faulted e" for w e
    using excl_alive [OF x, of w e] by (cases "w = t") simp_all
qed

lemma exclusive_release:
  assumes x: "exclusive s" and j: "inj_on (locks (shared s)) (dom (locks (shared s)))"
    and b: "locks (shared s) r = Some (Ref l)" and o: "r \<in> holds s t"
  shows "exclusive (s\<lparr>mutexes := (mutexes s)(l := False), pcs := (pcs s)(t := Idle),
                      holds := (holds s)(t := holds s t - {r})\<rparr>)"
proof (rule exclusiveI)
  let ?s = "s\<lparr>mutexes := (mutexes s)(l := False), pcs := (pcs s)(t := Idle),
              holds := (holds s)(t := holds s t - {r})\<rparr>"
  have h: "k \<in> holds ?s w \<Longrightarrow> k \<in> holds s w \<and> (w \<noteq> t \<or> k \<noteq> r)" for k w
    by (cases "w = t") simp_all
  have h': "k \<in> holds s w \<Longrightarrow> k \<noteq> r \<Longrightarrow> k \<in> holds ?s w" for k w
    by (cases "w = t") simp_all
  show "\<exists>l'. locks (shared ?s) k = Some (Ref l') \<and> mutexes ?s l'" if "k \<in> holds ?s w" for w k
  proof -
    from h [OF that] have k: "k \<in> holds s w" and d: "w \<noteq> t \<or> k \<noteq> r" by simp_all
    from excl_held [OF x k] obtain l' where
      l': "locks (shared s) k = Some (Ref l')" and m': "mutexes s l'" by blast
    have "k \<noteq> r"
    proof
      assume "k = r"
      with k o have "w = t" by (intro excl_one [OF x, of r w t]) simp_all
      with d \<open>k = r\<close> show False by simp
    qed
    from only_one_row [OF j l' b this] have "l' \<noteq> l" by simp
    with l' m' show ?thesis by simp
  qed
  show "\<exists>w k. k \<in> holds ?s w \<and> locks (shared ?s) k = Some (Ref l')" if "mutexes ?s l'" for l'
  proof -
    from that have n: "l' \<noteq> l" and "mutexes s l'" by (simp_all split: if_splits)
    from excl_locked [OF x this(2)] obtain w k where
      k: "k \<in> holds s w" and l': "locks (shared s) k = Some (Ref l')" by blast
    from l' b n have "k \<noteq> r" by auto
    from h' [OF k this] l' have "k \<in> holds ?s w \<and> locks (shared ?s) k = Some (Ref l')" by simp
    then show ?thesis by blast
  qed
  show "w = w'" if "k \<in> holds ?s w" and "k \<in> holds ?s w'" for w w' k
    using h [OF that(1)] h [OF that(2)] excl_one [OF x, of k w w'] by blast
  show "k \<in> holds ?s w" if "call_of (pcs ?s w) = Some (UnlockCall k)" for w k
  proof (cases "w = t")
    case True
    with that show ?thesis by simp
  next
    case False
    with that excl_unlocking [OF x, of w k] show ?thesis by simp
  qed
  show "pcs ?s w \<noteq> Faulted e" for w e
    using excl_alive [OF x, of w e] by (cases "w = t") simp_all
qed

lemma step_exclusive:
  assumes x: "exclusive s" and a: "accounted s" and z: "nonnil s" and g: "agreed s"
    and p: "paired s e"
  shows "exclusive (step s e)"
proof (cases rule: step_cases [of s e])
  case same
  with x show ?thesis by simp
next
  case (enter t c)
  have "r \<in> holds s t" if "call_of (At58 c) = Some (UnlockCall r)" for r
    using that p enter(1) by simp
  from exclusive_update [OF x, of "shared s" "At58 c" t] this enter(3) show ?thesis by simp
next
  case (get t ch c)
  have "r \<in> holds s t"
    if "call_of (At59 c (fst (Get (lockerPool (shared s)) (pick ch)))) = Some (UnlockCall r)" for r
    using that excl_unlocking [OF x, of t r] get(2) by simp
  from exclusive_update [OF x,
      of "\<lparr>locks = locks (shared s), lockerPool = snd (Get (lockerPool (shared s)) (pick ch))\<rparr>"
         "At59 c (fst (Get (lockerPool (shared s)) (pick ch)))" t] this get(3)
  show ?thesis by simp
next
  case (store t ch c x')
  have 1: "locks (shared s) k = Some v \<Longrightarrow> ((locks (shared s))(row_of c \<mapsto> x')) k = Some v" for k v
    using store(3) by (cases "k = row_of c") simp_all
  have 2: "r \<in> holds s t" if "call_of (At60 c x' x' False) = Some (UnlockCall r)" for r
    using that excl_unlocking [OF x, of t r] store(2) by simp
  from exclusive_update [OF x,
      of "\<lparr>locks = (locks (shared s))(row_of c \<mapsto> x'), lockerPool = lockerPool (shared s)\<rparr>"
         "At60 c x' x' False" t] 1 2 store(4)
  show ?thesis by simp
next
  case (found t ch c x' v)
  have "r \<in> holds s t" if "call_of (At60 c x' v True) = Some (UnlockCall r)" for r
    using that excl_unlocking [OF x, of t r] found(2) by simp
  from exclusive_update [OF x, of "shared s" "At60 c x' v True" t] this found(4)
  show ?thesis by simp
next
  case (put t ch c x' v)
  have "r \<in> holds s t" if "call_of (At63 c v) = Some (UnlockCall r)" for r
    using that excl_unlocking [OF x, of t r] put(2) by simp
  from exclusive_update [OF x,
      of "\<lparr>locks = locks (shared s), lockerPool = Put (lockerPool (shared s)) (keep ch) x'\<rparr>"
         "At63 c v" t] this put(3)
  show ?thesis by simp
next
  case (skip t ch c x' v)
  have "r \<in> holds s t" if "call_of (At63 c v) = Some (UnlockCall r)" for r
    using that excl_unlocking [OF x, of t r] skip(2) by simp
  from exclusive_update [OF x, of "shared s" "At63 c v" t] this skip(3)
  show ?thesis by simp
next
  case (finish t ch c v)
  note b = agreed_At63 [OF g finish(2)]
  from a have ia: "instances_apart (shared s)"
    by (rule accounted_shared)
  have "exclusive (finish s t c v)"
  proof (cases rule: finish_cases [of v s t c])
    case nil
    with nonnil_At63 [OF z finish(2)] show ?thesis by simp
  next
    case (blocked l r)
    with x show ?thesis by simp
  next
    case (acquire l r)
    from b acquire(1,2) have "locks (shared s) r = Some (Ref l)" by simp
    from exclusive_acquire [OF x this acquire(3), of t] acquire(4) show ?thesis by simp
  next
    case (release l r)
    from b release(1,2) have 1: "locks (shared s) r = Some (Ref l)" by simp
    from finish(2) release(2) have "call_of (pcs s t) = Some (UnlockCall r)" by simp
    from excl_unlocking [OF x this] have 2: "r \<in> holds s t" .
    from ia have "inj_on (locks (shared s)) (dom (locks (shared s)))"
      by (simp add: instances_apart_def)
    from exclusive_release [OF x this 1 2] release(4) show ?thesis by simp
  next
    case (fault l r)
    from b fault(1,2) have 1: "locks (shared s) r = Some (Ref l)" by simp
    from finish(2) fault(2) have "call_of (pcs s t) = Some (UnlockCall r)" by simp
    from excl_unlocking [OF x this] have "r \<in> holds s t" .
    from excl_held [OF x this] 1 fault(3) show ?thesis by auto
  next
    case (return l r)
    from exclusive_update [OF x, of "shared s" Idle t] return(3) show ?thesis by simp
  qed
  with finish(3) show ?thesis by simp
qed

lemma step_safe: "safe s \<Longrightarrow> paired s e \<Longrightarrow> safe (step s e)"
  by (simp add: safe_def step_accounted step_nonnil step_agreed step_exclusive)

lemma steps_safe: "safe s \<Longrightarrow> disciplined s es \<Longrightarrow> safe (steps s es)"
  by (induction es arbitrary: s) (simp_all add: step_safe)

lemma start_safe: "inj f \<Longrightarrow> \<forall>n. f n \<noteq> Nil \<Longrightarrow> safe (start f)"
  unfolding safe_def
proof (intro conjI)
  assume "inj f" and "\<forall>n. f n \<noteq> Nil"
  then show "inj (New (lockerPool (shared (start f :: 'a system))))"
    and "\<forall>n. New (lockerPool (shared (start f :: 'a system))) n \<noteq> Nil"
    by (simp_all add: start_def NewRowLock_def)
  show "accounted (start f :: 'a system)"
    by (rule start_accounted)
  show "nonnil (start f :: 'a system)"
    by (rule start_nonnil)
  show "agreed (start f :: 'a system)"
    by (simp add: agreed_def start_def)
  show "exclusive (start f :: 'a system)"
    by (rule exclusiveI) (simp_all add: start_def)
qed

text \<open>A Lock that waits, waits for a holder of its own row.\<close>

lemma waits_for_holder:
  assumes s: "safe s" and w: "waits s t r"
  shows "\<exists>t'. r \<in> holds s t'"
proof -
  from s have a: "accounted s" and g: "agreed s" and x: "exclusive s"
    by (simp_all add: safe_def)
  from w obtain l where p: "pcs s t = At63 (LockCall r) (Ref l)" and m: "mutexes s l"
    by (auto simp: waits_def)
  from agreed_At63 [OF g p] have b: "locks (shared s) r = Some (Ref l)" by simp
  from excl_locked [OF x m] obtain t' r' where
    h: "r' \<in> holds s t'" and b': "locks (shared s) r' = Some (Ref l)" by blast
  from accounted_shared [OF a] have j: "inj_on (locks (shared s)) (dom (locks (shared s)))"
    by (simp add: instances_apart_def)
  have "r' = r"
  proof (rule ccontr)
    assume "r' \<noteq> r"
    from only_one_row [OF j b' b this] show False by simp
  qed
  with h show ?thesis by blast
qed

text \<open>Every other statement of a thread inside a call goes through.\<close>

lemma proceeds:
  assumes s: "safe s" and i: "pcs s t \<noteq> Idle" and w: "\<forall>r. \<not> waits s t r"
  shows "pcs (step s (Advance t ch)) t \<noteq> pcs s t"
proof -
  from s have a: "accounted s" and g: "agreed s" and x: "exclusive s"
    by (simp_all add: safe_def)
  show ?thesis
  proof (cases "pcs s t")
    case Idle
    with i show ?thesis by simp
  next
    case (At58 c)
    then show ?thesis by (simp add: advance_At58)
  next
    case (At59 c y)
    then show ?thesis
      by (cases "locks (shared s) (row_of c)")
         (simp_all add: advance_At59_unbound advance_At59_bound)
  next
    case (At60 c y v loaded)
    then show ?thesis
      by (cases loaded) (simp_all add: advance_At60_loaded advance_At60_stored)
  next
    case (Faulted e)
    with excl_alive [OF x, of t e] show ?thesis by simp
  next
    case (At63 c v)
    note b = agreed_At63 [OF g At63]
    have "pcs (finish s t c v) t \<noteq> At63 c v"
    proof (cases rule: finish_cases [of v s t c])
      case nil
      then show ?thesis by simp
    next
      case (blocked l r)
      with At63 have "waits s t r" by (simp add: waits_def)
      with w show ?thesis by simp
    next
      case (acquire l r)
      then show ?thesis by simp
    next
      case (release l r)
      then show ?thesis by simp
    next
      case (fault l r)
      then show ?thesis by simp
    next
      case (return l r)
      then show ?thesis by simp
    qed
    with At63 show ?thesis by (simp add: advance_At63)
  qed
qed

text \<open>
  A thread that runs a call with no other thread in between executes \<^verbatim>\<open>getLocker\<close>:
  after the three statements of lines 58 to 62 the table and the pool are as
  \<^verbatim>\<open>getLocker\<close> leaves them, and the thread is about to assert and use the Locker
  \<^verbatim>\<open>getLocker\<close> returns.
\<close>

lemma thread_alone_runs_getLocker:
  assumes "pcs s t = Idle"
  shows "shared (steps s [Begin t c, Advance t ch, Advance t ch, Advance t ch])
           = snd (getLocker (shared s) ch (row_of c))
       \<and> (\<exists>v. pcs (steps s [Begin t c, Advance t ch, Advance t ch, Advance t ch]) t = At63 c v
              \<and> assertLocker v = fst (getLocker (shared s) ch (row_of c)))"
proof (cases "locks (shared s) (row_of c)")
  case None
  with assms show ?thesis
    by (simp add: advance_def LoadOrStore_def getLocker_unbound split: prod.splits)
next
  case (Some v)
  with assms show ?thesis
    by (simp add: advance_def LoadOrStore_def getLocker_bound split: prod.splits)
qed

subsection \<open>The table and the pool under interleaving\<close>

text \<open>
  C7. When the factory returns a distinct instance at every call, then in every state a
  new RowLock reaches, through Lock, Unlock and getLocker calls one after the other
  (with any Locker and any behaviour of the pool) or through the interleaved statements
  of any number of goroutines, no Locker is bound to two distinct row keys, and no
  instance idle in the pool is bound in the table; the candidate a goroutine holds in
  the middle of \<^verbatim>\<open>getLocker\<close> is neither bound nor idle.
\<close>

theorem no_Locker_bound_twice:
  fixes cs :: "('k call \<times> choice) list" and es :: "'k event list"
  assumes "inj f"
  shows "(\<forall>k k' v. locks (rowlock (run impl \<lparr>rowlock = NewRowLock f, heap = h\<rparr> cs)) k = Some v
            \<and> locks (rowlock (run impl \<lparr>rowlock = NewRowLock f, heap = h\<rparr> cs)) k' = Some v
            \<longrightarrow> k = k')
       \<and> set (idle (lockerPool (rowlock (run impl \<lparr>rowlock = NewRowLock f, heap = h\<rparr> cs))))
           \<inter> ran (locks (rowlock (run impl \<lparr>rowlock = NewRowLock f, heap = h\<rparr> cs))) = {}
       \<and> (\<forall>k k' v. locks (shared (steps (start f) es)) k = Some v
            \<and> locks (shared (steps (start f) es)) k' = Some v \<longrightarrow> k = k')
       \<and> set (idle (lockerPool (shared (steps (start f) es))))
           \<inter> ran (locks (shared (steps (start f) es))) = {}
       \<and> (\<forall>t x. owned (pcs (steps (start f) es) t) = Some x \<longrightarrow>
             x \<notin> ran (locks (shared (steps (start f) es)))
             \<and> x \<notin> set (idle (lockerPool (shared (steps (start f) es)))))"
proof -
  let ?s = "steps (start f) es"
  from assms have "inj (New (lockerPool (shared (start f :: 'k system))))"
    by (simp add: start_def NewRowLock_def)
  then have a: "accounted ?s"
    using start_accounted by (rule steps_accounted)
  from accounted_shared [OF a] have
    j: "inj_on (locks (shared ?s)) (dom (locks (shared ?s)))"
    and i: "set (idle (lockerPool (shared ?s))) \<inter> ran (locks (shared ?s)) = {}"
    by (simp_all add: instances_apart_def)
  have 1: "\<forall>k k' v. locks (shared ?s) k = Some v \<and> locks (shared ?s) k' = Some v \<longrightarrow> k = k'"
  proof (intro allI impI)
    fix k k' v
    assume b: "locks (shared ?s) k = Some v \<and> locks (shared ?s) k' = Some v"
    show "k = k'"
    proof (rule ccontr)
      assume "k \<noteq> k'"
      from only_one_row [OF j _ _ this, of v v] b show False by simp
    qed
  qed
  have 2: "\<forall>t x. owned (pcs ?s t) = Some x \<longrightarrow>
      x \<notin> ran (locks (shared ?s)) \<and> x \<notin> set (idle (lockerPool (shared ?s)))"
    using accounted_owned(1,2) [OF a] by blast
  from run_rows_apart [OF assms, of impl h cs] i 1 2 show ?thesis
    by (intro conjI) (erule conjunct1, erule conjunct2, assumption+)
qed

theorem no_Locker_bound_twice_witness:
  "inj MutexNewLocker
   \<and> locks (rowlock (run Mutex \<lparr>rowlock = NewRowLock MutexNewLocker, heap = (\<lambda>l. False)\<rparr>
        [(LockCall (1::nat), recycles), (UnlockCall 1, recycles), (LockCall 2, recycles)])) 1
      = Some (Ref 0)
   \<and> locks (rowlock (run Mutex \<lparr>rowlock = NewRowLock MutexNewLocker, heap = (\<lambda>l. False)\<rparr>
        [(LockCall (1::nat), recycles), (UnlockCall 1, recycles), (LockCall 2, recycles)])) 2
      \<noteq> Some (Ref 0)
   \<and> set (idle (lockerPool (shared (steps (start MutexNewLocker) contended))))
       \<inter> ran (locks (shared (steps (start MutexNewLocker) contended))) = {}"
proof -
  let ?t = "locks (rowlock (run Mutex \<lparr>rowlock = NewRowLock MutexNewLocker, heap = (\<lambda>l. False)\<rparr>
        [(LockCall (1::nat), recycles), (UnlockCall 1, recycles), (LockCall 2, recycles)]))"
  have a: "inj MutexNewLocker"
    by (simp add: inj_def MutexNewLocker_def)
  note t = no_Locker_bound_twice [OF a, of Mutex "\<lambda>l. False"
      "[(LockCall (1::nat), recycles), (UnlockCall 1, recycles), (LockCall 2, recycles)]"
      contended]
  have b: "?t 1 = Some (Ref 0)"
    by (simp add: concrete_run)
  from t [THEN conjunct1] have "?t 1 = Some (Ref 0) \<and> ?t 2 = Some (Ref 0) \<longrightarrow> (1::nat) = 2"
    by (elim allE)
  with b have c: "?t 2 \<noteq> Some (Ref 0)" by auto
  from a b c t [THEN conjunct2, THEN conjunct2, THEN conjunct2, THEN conjunct1]
  show ?thesis by (intro conjI)
qed

text \<open>
  C9. When the factory never returns \<^verbatim>\<open>nil\<close>, no call of a run on a new RowLock
  panics in the facade, and in every state reached the type assertion that ends
  \<^verbatim>\<open>getLocker\<close> succeeds for every row: Lock and Unlock end as the Locker's own
  Lock and Unlock end on the resolved instance, so a fault is the Locker's. The same
  holds under interleaving: no goroutine ever stops at the type assertion.
\<close>

theorem facade_never_faults:
  fixes cs :: "('k call \<times> choice) list" and es :: "'k event list"
  assumes "\<forall>n. f n \<noteq> Nil"
  shows "Panicked TypeAssertion \<notin> set (outcomes impl \<lparr>rowlock = NewRowLock f, heap = h\<rparr> cs)
       \<and> (\<exists>l. fst (getLocker (rowlock (run impl \<lparr>rowlock = NewRowLock f, heap = h\<rparr> cs)) ch row)
                 = Inr l
              \<and> fst (Lock impl (run impl \<lparr>rowlock = NewRowLock f, heap = h\<rparr> cs) ch row)
                 = fst (invoke (locker_Lock impl)
                         (heap (run impl \<lparr>rowlock = NewRowLock f, heap = h\<rparr> cs)) l)
              \<and> fst (Unlock impl (run impl \<lparr>rowlock = NewRowLock f, heap = h\<rparr> cs) ch row)
                 = fst (invoke (locker_Unlock impl)
                         (heap (run impl \<lparr>rowlock = NewRowLock f, heap = h\<rparr> cs)) l))
       \<and> (\<forall>t. pcs (steps (start f) es) t \<noteq> Faulted TypeAssertion)"
proof -
  from assms have "\<forall>n. New (lockerPool (shared (start f :: 'k system))) n \<noteq> Nil"
    by (simp add: start_def NewRowLock_def)
  then have "nonnil (steps (start f) es)"
    using start_nonnil by (rule steps_nonnil)
  then have "\<forall>t. pcs (steps (start f) es) t \<noteq> Faulted TypeAssertion"
    by (simp add: nonnil_def)
  with run_never_faults [OF assms, of impl h cs ch row] show ?thesis
    by (intro conjI) (erule conjunct1, erule conjunct2, assumption)
qed

theorem facade_never_faults_witness:
  "(\<forall>n. MutexNewLocker n \<noteq> Nil)
   \<and> Panicked TypeAssertion \<notin> set (outcomes Mutex
        \<lparr>rowlock = NewRowLock MutexNewLocker, heap = (\<lambda>l. False)\<rparr>
        [(UnlockCall (1::nat), recycles), (LockCall 1, recycles), (LockCall 1, recycles)])
   \<and> outcomes Mutex \<lparr>rowlock = NewRowLock MutexNewLocker, heap = (\<lambda>l. False)\<rparr>
        [(UnlockCall (1::nat), recycles), (LockCall 1, recycles), (LockCall 1, recycles)]
      = [Panicked LockerFault, Completed, Blocked]"
proof -
  have a: "\<forall>n. MutexNewLocker n \<noteq> Nil"
    by (simp add: MutexNewLocker_def)
  from facade_never_faults [OF a, of Mutex "\<lambda>l. False"
      "[(UnlockCall (1::nat), recycles), (LockCall 1, recycles), (LockCall 1, recycles)]"]
  have "Panicked TypeAssertion \<notin> set (outcomes Mutex
        \<lparr>rowlock = NewRowLock MutexNewLocker, heap = (\<lambda>l. False)\<rparr>
        [(UnlockCall (1::nat), recycles), (LockCall 1, recycles), (LockCall 1, recycles)])"
    by (rule conjunct1)
  moreover have "outcomes Mutex \<lparr>rowlock = NewRowLock MutexNewLocker, heap = (\<lambda>l. False)\<rparr>
        [(UnlockCall (1::nat), recycles), (LockCall 1, recycles), (LockCall 1, recycles)]
      = [Panicked LockerFault, Completed, Blocked]"
    by (simp add: concrete_run)
  ultimately show ?thesis using a by blast
qed

subsection \<open>Mutual exclusion\<close>

lemmas concurrent_run =
  start_def contended_def advance_def finish_def Get_def Put_def LoadOrStore_def NewRowLock_def
  MutexNewLocker_def recycles_def never_recycles_def waits_def

text \<open>
  For every RowLock (C8 as it is worded) this is false: the rows are independent only
  when the factory makes a new Locker for each, as the source asks of a
  \<^verbatim>\<open>NewLocker\<close>. With a factory that hands out one shared mutex, goroutine 0 completes
  Lock(1), and then goroutine 1 waits in Lock(2) although no goroutine is inside row 2.
\<close>

theorem shared_mutex_blocks_other_row_counterexample:
  "waits (steps (start (\<lambda>n. Ref 0))
       [Begin 0 (LockCall (1::nat)), Advance 0 never_recycles, Advance 0 never_recycles,
        Advance 0 never_recycles, Advance 0 never_recycles,
        Begin 1 (LockCall 2), Advance 1 never_recycles, Advance 1 never_recycles,
        Advance 1 never_recycles, Advance 1 never_recycles]) 1 2
   \<and> (\<forall>t. 2 \<notin> holds (steps (start (\<lambda>n. Ref 0))
       [Begin 0 (LockCall (1::nat)), Advance 0 never_recycles, Advance 0 never_recycles,
        Advance 0 never_recycles, Advance 0 never_recycles,
        Begin 1 (LockCall 2), Advance 1 never_recycles, Advance 1 never_recycles,
        Advance 1 never_recycles, Advance 1 never_recycles]) t)
   \<and> holds (steps (start (\<lambda>n. Ref 0))
       [Begin 0 (LockCall (1::nat)), Advance 0 never_recycles, Advance 0 never_recycles,
        Advance 0 never_recycles, Advance 0 never_recycles,
        Begin 1 (LockCall 2), Advance 1 never_recycles, Advance 1 never_recycles,
        Advance 1 never_recycles, Advance 1 never_recycles]) 0 = {1}
   \<and> outcomes Mutex \<lparr>rowlock = NewRowLock (\<lambda>n. Ref 0), heap = (\<lambda>l. False)\<rparr>
        [(LockCall (1::nat), never_recycles), (LockCall 2, never_recycles)] = [Completed, Blocked]"
  by (simp add: concurrent_run concrete_run)

text \<open>
  C8, as the source has it. Mutual exclusion per row, for \<^verbatim>\<open>NewRowLock\<close> with a factory
  that returns a distinct non-nil mutex at every call (as \<^verbatim>\<open>MutexNewLocker\<close> does) and
  callers that pair Lock and Unlock, in every state any number of goroutines reach in
  any interleaving: no two goroutines are inside the same row; a Lock that waits, waits
  for a goroutine inside its own row, so a goroutine inside another row never blocks
  it; every other statement of Lock and Unlock goes through; and no goroutine panics.
\<close>

theorem mutual_exclusion_per_row:
  assumes "inj f" and "\<forall>n. f n \<noteq> Nil" and "disciplined (start f) es"
  shows "(\<forall>t t' r. r \<in> holds (steps (start f) es) t \<and> r \<in> holds (steps (start f) es) t'
            \<longrightarrow> t = t')
       \<and> (\<forall>t r. waits (steps (start f) es) t r \<longrightarrow> (\<exists>t'. r \<in> holds (steps (start f) es) t'))
       \<and> (\<forall>t ch. pcs (steps (start f) es) t \<noteq> Idle \<and> (\<forall>r. \<not> waits (steps (start f) es) t r)
            \<longrightarrow> pcs (step (steps (start f) es) (Advance t ch)) t \<noteq> pcs (steps (start f) es) t)
       \<and> (\<forall>t e. pcs (steps (start f) es) t \<noteq> Faulted e)"
proof -
  let ?s = "steps (start f) es"
  from assms have s: "safe ?s"
    by (intro steps_safe start_safe)
  then have x: "exclusive ?s" by (simp add: safe_def)
  have 1: "\<forall>t t' r. r \<in> holds ?s t \<and> r \<in> holds ?s t' \<longrightarrow> t = t'"
    using excl_one [OF x] by blast
  have 2: "\<forall>t r. waits ?s t r \<longrightarrow> (\<exists>t'. r \<in> holds ?s t')"
    using waits_for_holder [OF s] by blast
  have 3: "\<forall>t ch. pcs ?s t \<noteq> Idle \<and> (\<forall>r. \<not> waits ?s t r)
      \<longrightarrow> pcs (step ?s (Advance t ch)) t \<noteq> pcs ?s t"
    using proceeds [OF s] by blast
  have 4: "\<forall>t e. pcs ?s t \<noteq> Faulted e"
    using excl_alive [OF x] by blast
  from 1 2 3 4 show ?thesis by (intro conjI)
qed

theorem mutual_exclusion_per_row_witness:
  "inj MutexNewLocker \<and> (\<forall>n. MutexNewLocker n \<noteq> Nil)
   \<and> disciplined (start MutexNewLocker) contended
   \<and> holds (steps (start MutexNewLocker) contended) 0 = {7}
   \<and> holds (steps (start MutexNewLocker) contended) 1 = {}
   \<and> holds (steps (start MutexNewLocker) contended) 2 = {8}
   \<and> waits (steps (start MutexNewLocker) (take 10 contended)) 0 7
   \<and> holds (steps (start MutexNewLocker) (take 10 contended)) 1 = {7}
   \<and> (\<forall>t e. pcs (steps (start MutexNewLocker) contended) t \<noteq> Faulted e)"
proof -
  have a: "inj MutexNewLocker"
    by (simp add: inj_def MutexNewLocker_def)
  have b: "\<forall>n. MutexNewLocker n \<noteq> Nil"
    by (simp add: MutexNewLocker_def)
  have c: "disciplined (start MutexNewLocker) contended"
    by (simp add: concurrent_run)
  have d: "holds (steps (start MutexNewLocker) contended) 0 = {7}"
    "holds (steps (start MutexNewLocker) contended) 1 = {}"
    "holds (steps (start MutexNewLocker) contended) 2 = {8}"
    "waits (steps (start MutexNewLocker) (take 10 contended)) 0 7"
    "holds (steps (start MutexNewLocker) (take 10 contended)) 1 = {7}"
    by (simp_all add: concurrent_run)
  note t = mutual_exclusion_per_row [OF a b c]
  from a b c d t [THEN conjunct2, THEN conjunct2, THEN conjunct2] show ?thesis
    by (intro conjI)
qed

end
